theory Spec2Isabelle
  imports Main "HOL-Library.Sublist" "HOL-Library.Multiset" "HOL-Library.AList"
begin

section \<open>Strings and the standard-library helpers the crawler calls\<close>

text \<open>
  A Go string is a sequence of bytes, which is what \<^typ>\<open>string\<close> is. The crawler uses
  \<^verbatim>\<open>strings.ToLower\<close>, \<^verbatim>\<open>strings.EqualFold\<close>, \<^verbatim>\<open>strings.HasPrefix\<close>,
  \<^verbatim>\<open>strings.Contains\<close> and \<^verbatim>\<open>path.Ext\<close>.
  \<^verbatim>\<open>strings.HasPrefix(s, p)\<close> is \<^term>\<open>prefix p s\<close> and
  \<^verbatim>\<open>strings.Contains(s, ":")\<close> is \<^term>\<open>CHR '':'' \<in> set s\<close>.

  \<^verbatim>\<open>strings.ToLower\<close> is modelled on the ASCII letters, byte by byte; a byte outside
  \<open>A..Z\<close> is kept. On a string of ASCII bytes this is what Go computes. On a string with
  a byte beyond ASCII Go maps every rune with \<^verbatim>\<open>unicode.ToLower\<close>, which is not modelled;
  two letters beyond ASCII have an ASCII lower case (U+0130 gives \<open>i\<close>, U+212A gives \<open>k\<close>).
  The crawler tests a lowered string for the prefixes \<open>text/html\<close>, \<open>http:\<close> and
  \<open>https:\<close>, which have neither letter, for prefixes that end in a colon, where a string
  the model lowers differently still has its colon and is rejected for it, and for
  membership in the table of ignored extensions, where Go can only find more entries than
  the model does. The first revision, modelled further down for comparison, has no test
  for a colon; it is used on ASCII references only.
\<close>

definition lower_byte :: "char \<Rightarrow> char" where
  "lower_byte c =
     (case map_of (zip ''ABCDEFGHIJKLMNOPQRSTUVWXYZ'' ''abcdefghijklmnopqrstuvwxyz'') c of
        None \<Rightarrow> c
      | Some d \<Rightarrow> d)"

definition toLower :: "string \<Rightarrow> string" where
  "toLower s = map lower_byte s"

text \<open>
  \<^verbatim>\<open>strings.EqualFold(s, t)\<close> runs two loops. The first walks both strings byte by byte
  as long as both bytes are ASCII: equal bytes pass, and so do an upper-case letter and
  the byte 32 above it (\<^verbatim>\<open>'A' <= sr && sr <= 'Z' && tr == sr+'a'-'A'\<close>, with \<open>sr\<close> the
  smaller of the two); any other pair gives false, and when one string ends the answer
  is whether both have ended. At the first byte beyond ASCII (\<^verbatim>\<open>sr|tr >= utf8.RuneSelf\<close>)
  it hands the two remainders to the second loop, which decodes runes and compares them
  with \<^verbatim>\<open>unicode.SimpleFold\<close>. The first loop is \<open>equalFold\<close>; the second loop is its
  parameter \<open>runes\<close>.
\<close>

definition foldByte :: "char \<Rightarrow> char \<Rightarrow> bool" where
  "foldByte sr tr =
     (let a = (of_char sr :: nat); b = (of_char tr :: nat); lo = min a b; hi = max a b
      in a = b \<or> (65 \<le> lo \<and> lo \<le> 90 \<and> hi = lo + 32))"

fun equalFold :: "(string \<Rightarrow> string \<Rightarrow> bool) \<Rightarrow> string \<Rightarrow> string \<Rightarrow> bool" where
  "equalFold runes (sr # s) (tr # t) =
     (if 128 \<le> (of_char sr :: nat) \<or> 128 \<le> (of_char tr :: nat) then runes (sr # s) (tr # t)
      else foldByte sr tr \<and> equalFold runes s t)"
| "equalFold runes [] [] = True"
| "equalFold runes [] (tr # t) = False"
| "equalFold runes (sr # s) [] = False"

text \<open>
  \<^verbatim>\<open>path.Ext\<close>: the suffix beginning at the final dot of the final slash-separated
  element of the path, and the empty string when that element has no dot. The library
  scans from the last byte towards the first and stops at a slash; \<open>ext_scan\<close> is that
  loop, over the reversed path, collecting the bytes already passed.
\<close>

fun ext_scan :: "string \<Rightarrow> string \<Rightarrow> string" where
  "ext_scan [] acc = []"
| "ext_scan (c # cs) acc =
     (if c = CHR ''/'' then []
      else if c = CHR ''.'' then c # acc
      else ext_scan cs (c # acc))"

definition pathExt :: "string \<Rightarrow> string" where
  "pathExt p = ext_scan (rev p) []"

section \<open>URLs, links and the external collaborators\<close>

text \<open>
  \<^verbatim>\<open>url.URL\<close> of the standard library, with the fields the crawler reads or writes
  and the ones that travel with a copy of the struct. \<open>User\<close> is the optional user
  name with its optional password.
\<close>

record URL =
  Scheme :: string
  Opaque :: string
  User :: "(string \<times> string option) option"
  Host :: string
  Path :: string
  RawPath :: string
  RawQuery :: string
  Fragment :: string
  RawFragment :: string

text \<open>\<^verbatim>\<open>link.Link\<close>: what the HTML parser returns for one anchor element.\<close>

record link =
  Href :: string
  Text :: string

text \<open>What the crawler reads of an HTTP response.\<close>

record response =
  StatusCode :: int
  ContentType :: string
  Body :: string

text \<open>
  The functions of \<^verbatim>\<open>net/url\<close>, \<^verbatim>\<open>net/http\<close> and of the package \<^verbatim>\<open>sitemap/link\<close>
  are not part of the crawler's source; they are parameters of the model.
  \<^item> \<open>urlParse\<close> is \<^verbatim>\<open>url.Parse\<close>, \<open>None\<close> when it returns an error;
  \<^item> \<open>urlString\<close> is the method \<^verbatim>\<open>String\<close> of a URL;
  \<^item> \<open>resolveReference b r\<close> is \<^verbatim>\<open>b.ResolveReference(r)\<close>;
  \<^item> \<open>httpGet\<close> is \<^verbatim>\<open>client.Get\<close> with its timeout of 15 seconds, \<open>None\<close> when the
    request fails (no connection, timeout, malformed address);
  \<^item> \<open>linkParse\<close> is \<^verbatim>\<open>link.Parse\<close> on the body, \<open>None\<close> when it returns an error;
  \<^item> \<open>foldRunes\<close> is the second loop of \<^verbatim>\<open>strings.EqualFold\<close>, the comparison of two
    strings under the simple case folding of Unicode, which \<open>equalFold\<close> reaches at the
    first byte beyond ASCII.
\<close>

record lib =
  urlParse :: "string \<Rightarrow> URL option"
  urlString :: "URL \<Rightarrow> string"
  resolveReference :: "URL \<Rightarrow> URL \<Rightarrow> URL"
  httpGet :: "string \<Rightarrow> response option"
  linkParse :: "string \<Rightarrow> link list option"
  foldRunes :: "string \<Rightarrow> string \<Rightarrow> bool"

section \<open>Fetching, resolving and filtering\<close>

datatype error =
    GetFailed string
  | BadStatus int string
  | NotHTML string string
  | ParseFailed string

text \<open>\<^verbatim>\<open>getAndParseLinks\<close>: fetch a page and return its links, or an error.\<close>

definition getAndParseLinks :: "lib \<Rightarrow> string \<Rightarrow> error + link list" where
  "getAndParseLinks L urlStr =
     (case httpGet L urlStr of
        None \<Rightarrow> Inl (GetFailed urlStr)
      | Some resp \<Rightarrow>
          if StatusCode resp < 200 \<or> StatusCode resp \<ge> 300
          then Inl (BadStatus (StatusCode resp) urlStr)
          else if \<not> prefix ''text/html'' (toLower (ContentType resp))
          then Inl (NotHTML (ContentType resp) urlStr)
          else (case linkParse L (Body resp) of
                  None \<Rightarrow> Inl (ParseFailed urlStr)
                | Some links \<Rightarrow> Inr links))"

text \<open>\<^verbatim>\<open>getBaseURL\<close>: the parsed URL, or \<open>nil\<close> (here \<open>None\<close>).\<close>

definition getBaseURL :: "lib \<Rightarrow> string \<Rightarrow> URL option" where
  "getBaseURL L urlStr = urlParse L urlStr"

text \<open>
  \<^verbatim>\<open>resolveURL\<close> returns the empty string for a link that is no crawl candidate.
  \<open>resolveParsed\<close> is its second half, from the call of \<^verbatim>\<open>url.Parse\<close> on the
  (possibly rewritten) reference to the end.
\<close>

definition resolveParsed :: "lib \<Rightarrow> URL \<Rightarrow> string \<Rightarrow> string" where
  "resolveParsed L base href =
     (case urlParse L href of
        None \<Rightarrow> []
      | Some relativeURL \<Rightarrow>
          (let absoluteURL = resolveReference L base relativeURL in
           if Scheme absoluteURL \<noteq> ''http'' \<and> Scheme absoluteURL \<noteq> ''https'' then []
           else urlString L (absoluteURL\<lparr>Fragment := []\<rparr>)))"

definition foreignScheme :: "string \<Rightarrow> bool" where
  "foreignScheme lowerHref =
     (prefix ''#'' lowerHref \<or>
      prefix ''mailto:'' lowerHref \<or>
      prefix ''javascript:'' lowerHref \<or>
      prefix ''tel:'' lowerHref \<or>
      prefix ''data:'' lowerHref \<or>
      (CHR '':'' \<in> set lowerHref \<and> \<not> prefix ''http:'' lowerHref \<and> \<not> prefix ''https:'' lowerHref))"

definition resolveURL :: "lib \<Rightarrow> URL option \<Rightarrow> link \<Rightarrow> string" where
  "resolveURL L base l =
     (case base of
        None \<Rightarrow> []
      | Some b \<Rightarrow>
          if Href l = [] then []
          else
            (let lowerHref = toLower (Href l) in
             if prefix ''//'' (Href l) then
               (let newUrl = b\<lparr>Host := [], Path := [], RawQuery := [], User := None,
                               Opaque := Href l\<rparr> in
                case urlParse L (urlString L newUrl) of
                  None \<Rightarrow> []
                | Some relUrl \<Rightarrow> resolveParsed L b (urlString L relUrl))
             else if foreignScheme lowerHref then []
             else resolveParsed L b (Href l)))"

text \<open>
  \<^verbatim>\<open>isSameDomain\<close>: both URLs parse and \<^verbatim>\<open>strings.EqualFold\<close> holds of their hosts.
\<close>

definition isSameDomain :: "lib \<Rightarrow> string \<Rightarrow> string \<Rightarrow> bool" where
  "isSameDomain L startURLStr targetURLStr =
     (case urlParse L startURLStr of
        None \<Rightarrow> False
      | Some start \<Rightarrow>
          (case urlParse L targetURLStr of
             None \<Rightarrow> False
           | Some target \<Rightarrow> equalFold (foldRunes L) (Host start) (Host target)))"

text \<open>The table \<^verbatim>\<open>ignoredExtensions\<close>; only its keys matter.\<close>

definition ignoredExtensions :: "string list" where
  "ignoredExtensions =
     [''.txt'', ''.pdf'', ''.doc'', ''.docx'', ''.xls'', ''.xlsx'',
      ''.ppt'', ''.pptx'', ''.zip'', ''.rar'', ''.tar'', ''.gz'',
      ''.jpg'', ''.jpeg'', ''.png'', ''.gif'', ''.bmp'', ''.svg'',
      ''.ico'', ''.webp'', ''.mp3'', ''.mp4'', ''.avi'', ''.mov'',
      ''.wmv'', ''.flv'', ''.css'', ''.js'', ''.json'', ''.xml'',
      ''.rss'', ''.atom'', ''.webmanifest'', ''.map'']"

section \<open>The crawl engine \<^verbatim>\<open>buildSitemap\<close> as a transition system\<close>

text \<open>
  The program has one source file, \<^verbatim>\<open>main.go\<close>, in four revisions. The crawl engine
  modelled here is the latest one: the worker pool whose size is the flag \<open>workers\<close>,
  with the table \<open>ignoredExtensions\<close>. The functions of the sections above are the ones
  of that revision.

  \<^verbatim>\<open>buildSitemap(startURL, maxDepth, numWorkers, showStats)\<close> starts \<open>numWorkers\<close>
  worker goroutines, one goroutine that sends the seed job, and one that waits for the
  wait group \<open>tasks\<close> and closes the channel \<open>jobs\<close>; the calling goroutine waits for
  the workers and returns \<open>finalURLs\<close> with a \<open>nil\<close> error. The goroutines share the
  channel, the wait group, the map \<open>visited\<close> and the slice \<open>finalURLs\<close>, the latter
  under the mutex \<open>mu\<close>. Every access to them is a synchronising operation, so an
  execution is an interleaving of these operations; each one is a step of the model. What
  a goroutine computes on its own between two of them (fetching, resolving, filtering)
  belongs to the step that follows.

  The four statistics counters and the goroutine that prints them feed the log only and
  are left out, and so is \<open>showStats\<close>. \<open>depth\<close> and \<open>maxDepth\<close> are Go's 64-bit \<open>int\<close>;
  a depth grows by one for each page on a chain of links, so it stays far from the range
  where \<open>j.depth+1\<close> would wrap, and \<^typ>\<open>int\<close> is used.
\<close>

record job =
  url :: string
  depth :: int

record config =
  library :: lib
  startURL :: string
  maxDepth :: int
  numWorkers :: int

text \<open>
  Where a worker stands in its loop \<^verbatim>\<open>for j := range jobs\<close>:
  \<^item> \<open>WIdle\<close>: waiting to receive a job;
  \<^item> \<open>WGot j\<close>: received \<open>j\<close>, about to fetch its page;
  \<^item> \<open>WLoop j base ls\<close>: in \<^verbatim>\<open>for _, l := range foundLinks\<close> with the links \<open>ls\<close> still
    to look at; with no link left, about to call \<^verbatim>\<open>tasks.Done()\<close> after the loop;
  \<^item> \<open>WAppend j base absUrl ls\<close>: \<^verbatim>\<open>LoadOrStore\<close> has stored \<open>absUrl\<close> (the source's
    \<open>abs\<close>); about to append it to \<open>finalURLs\<close> under the mutex;
  \<^item> \<open>WAdd j base absUrl ls\<close>: about to call \<^verbatim>\<open>tasks.Add(1)\<close>;
  \<^item> \<open>WSend j base absUrl ls\<close>: about to send the new job on the channel;
  \<^item> \<open>WDone j\<close>: on one of the three early paths, about to call \<^verbatim>\<open>tasks.Done()\<close> and
    \<^verbatim>\<open>continue\<close>;
  \<^item> \<open>WExit\<close>: the channel is closed and drained; the goroutine has ended.
\<close>

datatype wstate =
    WIdle
  | WGot job
  | WLoop job URL "link list"
  | WAppend job URL string "link list"
  | WAdd job URL string "link list"
  | WSend job URL string "link list"
  | WDone job
  | WExit

text \<open>The goroutine \<^verbatim>\<open>tasks.Wait(); close(jobs)\<close>: waiting, woken, finished.\<close>

datatype cstate = CWait | CClose | CDone

datatype thread = Worker nat | Feeder | Closer | Main

datatype outcome =
    FetchFailed error
  | DepthCeiling
  | BaseNil
  | Expand "link list"

text \<open>The synchronising operations, as they are recorded in the history of a run.\<close>

datatype event =
    Recv job
  | Fetch string outcome
  | Reject link
  | LoadOrStore string bool
  | Append string
  | Add
  | Send job
  | Done
  | Exit
  | WaitOver
  | Close
  | Return
  | Panic

record state =
  jobs :: "job list"
  closed :: bool
  tasks :: int
  visited :: "string set"
  finalURLs :: "string list"
  workers :: "wstate list"
  feeder :: bool
  closer :: cstate
  returned :: "(string list \<times> error option) option"
  crashed :: bool
  trace :: "(thread \<times> event) list"

text \<open>
  \<^verbatim>\<open>sync.Map\<close> holds \<open>true\<close> under every key it has, and only the presence of a key is
  ever asked for: \<open>visited\<close> is the set of its keys. \<open>jobs\<close> is the buffer of the channel,
  of capacity \<open>numWorkers\<close>. \<open>feeder\<close> says that the seed job is still to be sent.
  \<open>returned\<close> is the pair that \<open>buildSitemap\<close> has returned, once it has. \<open>crashed\<close>
  says that the program has panicked: \<^verbatim>\<open>make(chan job, numWorkers)\<close> panics for a
  negative size, a send on a closed channel panics, and so does a wait group whose
  counter would fall below zero. \<open>trace\<close> is the history of the run, one entry a step.
\<close>

text \<open>
  The first state is the one in which the calling goroutine has stored and appended the
  start address, has started the workers, none of which can do anything before a job
  arrives, and has called \<^verbatim>\<open>tasks.Add(1)\<close> for the seed job; the goroutines that send
  the seed job and that close the channel are about to start.
\<close>

definition capacity :: "config \<Rightarrow> nat" where
  "capacity cfg = nat (numWorkers cfg)"

definition init :: "config \<Rightarrow> state" where
  "init cfg =
     \<lparr>jobs = [], closed = False, tasks = 1,
      visited = {startURL cfg}, finalURLs = [startURL cfg],
      workers = replicate (nat (numWorkers cfg)) WIdle,
      feeder = True, closer = CWait, returned = None,
      crashed = (numWorkers cfg < 0), trace = []\<rparr>"

text \<open>
  The body of the loop over the links, up to the call of \<^verbatim>\<open>LoadOrStore\<close>: the link is
  resolved, its extension is looked up in the table, and its host is compared.
\<close>

datatype verdict = Rejected | SkippedExt | Candidate string

definition examine :: "config \<Rightarrow> URL \<Rightarrow> link \<Rightarrow> verdict" where
  "examine cfg base l =
     (let absUrl = resolveURL (library cfg) (Some base) l in
      if absUrl = [] then Rejected
      else
        (case urlParse (library cfg) absUrl of
           None \<Rightarrow> Rejected
         | Some parsedAbs \<Rightarrow>
             (let ext = toLower (pathExt (Path parsedAbs)) in
              if ext \<in> set ignoredExtensions \<and> ext \<noteq> [] then SkippedExt
              else if isSameDomain (library cfg) (startURL cfg) absUrl then Candidate absUrl
              else Rejected)))"

definition setWorker :: "nat \<Rightarrow> wstate \<Rightarrow> state \<Rightarrow> state" where
  "setWorker i w s = s\<lparr>workers := (workers s)[i := w]\<rparr>"

text \<open>\<^verbatim>\<open>tasks.Done()\<close> by worker \<open>i\<close>, which then goes back to the head of its loop.\<close>

definition doneStep :: "nat \<Rightarrow> state \<Rightarrow> (event \<times> state) option" where
  "doneStep i s =
     (if tasks s - 1 < 0 then Some (Panic, s\<lparr>crashed := True\<rparr>)
      else Some (Done, setWorker i WIdle (s\<lparr>tasks := tasks s - 1\<rparr>)))"

text \<open>What the goroutine does after the call of \<^verbatim>\<open>getAndParseLinks\<close> has returned.\<close>

definition fetchStep :: "config \<Rightarrow> job \<Rightarrow> outcome \<times> wstate" where
  "fetchStep cfg j =
     (case getAndParseLinks (library cfg) (url j) of
        Inl err \<Rightarrow> (FetchFailed err, WDone j)
      | Inr foundLinks \<Rightarrow>
          if depth j + 1 \<ge> maxDepth cfg then (DepthCeiling, WDone j)
          else
            (case getBaseURL (library cfg) (url j) of
               None \<Rightarrow> (BaseNil, WDone j)
             | Some base \<Rightarrow> (Expand foundLinks, WLoop j base foundLinks)))"

fun workerStep :: "config \<Rightarrow> nat \<Rightarrow> wstate \<Rightarrow> state \<Rightarrow> (event \<times> state) option" where
  "workerStep cfg i WIdle s =
     (case jobs s of
        j # rest \<Rightarrow> Some (Recv j, setWorker i (WGot j) (s\<lparr>jobs := rest\<rparr>))
      | [] \<Rightarrow> if closed s then Some (Exit, setWorker i WExit s) else None)"
| "workerStep cfg i (WGot j) s =
     Some (Fetch (url j) (fst (fetchStep cfg j)), setWorker i (snd (fetchStep cfg j)) s)"
| "workerStep cfg i (WLoop j base []) s = doneStep i s"
| "workerStep cfg i (WLoop j base (l # ls)) s =
     (case examine cfg base l of
        Rejected \<Rightarrow> Some (Reject l, setWorker i (WLoop j base ls) s)
      | SkippedExt \<Rightarrow> Some (Reject l, setWorker i (WLoop j base ls) s)
      | Candidate absUrl \<Rightarrow>
          if absUrl \<in> visited s
          then Some (LoadOrStore absUrl True, setWorker i (WLoop j base ls) s)
          else Some (LoadOrStore absUrl False,
                     setWorker i (WAppend j base absUrl ls) (s\<lparr>visited := insert absUrl (visited s)\<rparr>)))"
| "workerStep cfg i (WAppend j base absUrl ls) s =
     Some (Append absUrl, setWorker i (WAdd j base absUrl ls) (s\<lparr>finalURLs := finalURLs s @ [absUrl]\<rparr>))"
| "workerStep cfg i (WAdd j base absUrl ls) s =
     Some (Add, setWorker i (WSend j base absUrl ls) (s\<lparr>tasks := tasks s + 1\<rparr>))"
| "workerStep cfg i (WSend j base absUrl ls) s =
     (if closed s then Some (Panic, s\<lparr>crashed := True\<rparr>)
      else if length (jobs s) < capacity cfg
      then Some (Send \<lparr>url = absUrl, depth = depth j + 1\<rparr>,
                 setWorker i (WLoop j base ls)
                   (s\<lparr>jobs := jobs s @ [\<lparr>url = absUrl, depth = depth j + 1\<rparr>]\<rparr>))
      else None)"
| "workerStep cfg i (WDone j) s = doneStep i s"
| "workerStep cfg i WExit s = None"

text \<open>
  One step of one goroutine; \<open>None\<close> when it is blocked or has ended. The seed job is sent
  by a goroutine of its own; \<^verbatim>\<open>tasks.Wait()\<close> returns when the counter is zero;
  \<^verbatim>\<open>workers.Wait()\<close> returns when every worker has ended.
\<close>

definition threadStep :: "config \<Rightarrow> thread \<Rightarrow> state \<Rightarrow> (event \<times> state) option" where
  "threadStep cfg t s =
     (case t of
        Worker i \<Rightarrow>
          if i < length (workers s) then workerStep cfg i (workers s ! i) s else None
      | Feeder \<Rightarrow>
          if \<not> feeder s then None
          else if closed s then Some (Panic, s\<lparr>crashed := True\<rparr>)
          else if length (jobs s) < capacity cfg
          then Some (Send \<lparr>url = startURL cfg, depth = 0\<rparr>,
                     s\<lparr>jobs := jobs s @ [\<lparr>url = startURL cfg, depth = 0\<rparr>], feeder := False\<rparr>)
          else None
      | Closer \<Rightarrow>
          (case closer s of
             CWait \<Rightarrow> if tasks s = 0 then Some (WaitOver, s\<lparr>closer := CClose\<rparr>) else None
           | CClose \<Rightarrow> Some (Close, s\<lparr>closed := True, closer := CDone\<rparr>)
           | CDone \<Rightarrow> None)
      | Main \<Rightarrow>
          if returned s = None \<and> list_all (\<lambda>w. w = WExit) (workers s)
          then Some (Return, s\<lparr>returned := Some (finalURLs s, None)\<rparr>)
          else None)"

definition exec :: "config \<Rightarrow> thread \<Rightarrow> state \<Rightarrow> state option" where
  "exec cfg t s =
     (if crashed s then None
      else
        (case threadStep cfg t s of
           None \<Rightarrow> None
         | Some (e, s') \<Rightarrow> Some (s'\<lparr>trace := trace s' @ [(t, e)]\<rparr>)))"

text \<open>The states a crawl can be in, and the run of a given schedule.\<close>

inductive reachable :: "config \<Rightarrow> state \<Rightarrow> bool" for cfg :: config where
  start: "reachable cfg (init cfg)"
| step: "reachable cfg s \<Longrightarrow> exec cfg t s = Some s' \<Longrightarrow> reachable cfg s'"

fun run :: "config \<Rightarrow> thread list \<Rightarrow> state \<Rightarrow> state option" where
  "run cfg [] s = Some s"
| "run cfg (t # ts) s = (case exec cfg t s of None \<Rightarrow> None | Some s' \<Rightarrow> run cfg ts s')"

text \<open>
  The goroutines of a state, and the states in which the crawl is stuck: it has neither
  returned nor panicked, and no goroutine can take a step.
\<close>

definition threads :: "state \<Rightarrow> thread list" where
  "threads s = Feeder # Closer # Main # map Worker [0..<length (workers s)]"

definition deadlocked :: "config \<Rightarrow> state \<Rightarrow> bool" where
  "deadlocked cfg s =
     (returned s = None \<and> \<not> crashed s \<and> list_all (\<lambda>t. exec cfg t s = None) (threads s))"

fun sending :: "wstate \<Rightarrow> bool" where
  "sending (WSend j base absUrl ls) = True"
| "sending w = False"

definition allBlockedSending :: "config \<Rightarrow> state \<Rightarrow> bool" where
  "allBlockedSending cfg s =
     (workers s \<noteq> [] \<and> list_all sending (workers s) \<and>
      \<not> closed s \<and> \<not> length (jobs s) < capacity cfg)"

inductive reaches :: "config \<Rightarrow> state \<Rightarrow> state \<Rightarrow> bool" for cfg :: config and s :: state where
  here: "reaches cfg s s"
| after: "reaches cfg s s1 \<Longrightarrow> exec cfg t s1 = Some s2 \<Longrightarrow> reaches cfg s s2"

section \<open>What the properties are stated with\<close>

subsection \<open>The wait group counts the jobs in flight\<close>

text \<open>
  A worker between the receipt of a job and its call of \<^verbatim>\<open>tasks.Done()\<close> holds one
  unit of the counter; after \<^verbatim>\<open>tasks.Add(1)\<close> and before the send it holds a second
  one, for the job it is about to send. Every job in the buffer holds one, and so does
  the seed job until it is sent.
\<close>

fun busy :: "wstate \<Rightarrow> int" where
  "busy WIdle = 0"
| "busy WExit = 0"
| "busy (WSend j base absUrl ls) = 2"
| "busy w = 1"

definition outstanding :: "state \<Rightarrow> int" where
  "outstanding s =
     (if feeder s then 1 else 0) + int (length (jobs s)) + sum_list (map busy (workers s))"

subsection \<open>Admitted and not yet appended\<close>

fun pending :: "wstate \<Rightarrow> string multiset" where
  "pending (WAppend j base absUrl ls) = {#absUrl#}"
| "pending w = {#}"

subsection \<open>The jobs of a state\<close>

text \<open>
  The job a worker is processing, with the job it is about to submit once the address is
  in the output; and all the jobs of a state: the seed job as long as it is to be sent,
  the jobs in the buffer, and the jobs of the workers.
\<close>

fun current :: "wstate \<Rightarrow> job list" where
  "current WIdle = []"
| "current (WGot j) = [j]"
| "current (WLoop j base ls) = [j]"
| "current (WAppend j base absUrl ls) = [j]"
| "current (WAdd j base absUrl ls) = [j, \<lparr>url = absUrl, depth = depth j + 1\<rparr>]"
| "current (WSend j base absUrl ls) = [j, \<lparr>url = absUrl, depth = depth j + 1\<rparr>]"
| "current (WDone j) = [j]"
| "current WExit = []"

definition allJobs :: "config \<Rightarrow> state \<Rightarrow> job set" where
  "allJobs cfg s =
     (if feeder s then {\<lparr>url = startURL cfg, depth = 0\<rparr>} else {}) \<union> set (jobs s) \<union>
     (\<Union>w \<in> set (workers s). set (current w))"

subsection \<open>Extensions\<close>

definition ignoredExt :: "config \<Rightarrow> string \<Rightarrow> bool" where
  "ignoredExt cfg u =
     (case urlParse (library cfg) u of
        None \<Rightarrow> False
      | Some parsed \<Rightarrow> toLower (pathExt (Path parsed)) \<in> set ignoredExtensions)"

subsection \<open>Pages within a number of links of the start\<close>

text \<open>
  \<open>children cfg u\<close> are the URLs that the loop over the links of the page at \<open>u\<close> hands
  to \<^verbatim>\<open>LoadOrStore\<close>; \<open>within cfg n\<close> are the URLs at most \<open>n\<close> links away from the start.
\<close>

definition candidates :: "config \<Rightarrow> URL \<Rightarrow> link list \<Rightarrow> string list" where
  "candidates cfg base ls =
     concat (map (\<lambda>l. case examine cfg base l of Candidate v \<Rightarrow> [v] | _ \<Rightarrow> []) ls)"

definition children :: "config \<Rightarrow> string \<Rightarrow> string set" where
  "children cfg u =
     (case getAndParseLinks (library cfg) u of
        Inl err \<Rightarrow> {}
      | Inr foundLinks \<Rightarrow>
          (case getBaseURL (library cfg) u of
             None \<Rightarrow> {}
           | Some base \<Rightarrow> set (candidates cfg base foundLinks)))"

fun within :: "config \<Rightarrow> nat \<Rightarrow> string set" where
  "within cfg 0 = {startURL cfg}"
| "within cfg (Suc n) = within cfg n \<union> (\<Union>u \<in> within cfg n. children cfg u)"

subsection \<open>The order of a worker's operations\<close>

text \<open>
  An observer of the operations of one worker. It starts \<open>Outside\<close> a job. A receive
  opens a job (\<open>Received\<close>); the fetch leads to \<open>Expanding\<close> when the links are to be
  looked at and to \<open>Closing\<close> on the three early paths; \<^verbatim>\<open>tasks.Add(1)\<close> leads to
  \<open>Incremented\<close>, from where only the send of the new job leads back; \<^verbatim>\<open>tasks.Done()\<close>
  is accepted in \<open>Expanding\<close> and in \<open>Closing\<close> only and leaves the job. Whatever else
  happens is refused: an increment or a send outside a job or after its completion, a
  second completion, a receive or the end of the goroutine inside a job, a panic.
\<close>

datatype phase = Outside | Received | Expanding | Incremented | Closing | Finished

fun observe :: "phase \<Rightarrow> event \<Rightarrow> phase option" where
  "observe Outside (Recv j) = Some Received"
| "observe Outside Exit = Some Finished"
| "observe Received (Fetch u (Expand ls)) = Some Expanding"
| "observe Received (Fetch u out) = Some Closing"
| "observe Expanding (Reject l) = Some Expanding"
| "observe Expanding (LoadOrStore u b) = Some Expanding"
| "observe Expanding (Append u) = Some Expanding"
| "observe Expanding Add = Some Incremented"
| "observe Incremented (Send j) = Some Expanding"
| "observe Expanding Done = Some Outside"
| "observe Closing Done = Some Outside"
| "observe ph e = None"

fun observeAll :: "phase \<Rightarrow> event list \<Rightarrow> phase option" where
  "observeAll ph [] = Some ph"
| "observeAll ph (e # es) = (case observe ph e of None \<Rightarrow> None | Some ph' \<Rightarrow> observeAll ph' es)"

definition eventsOf :: "nat \<Rightarrow> state \<Rightarrow> event list" where
  "eventsOf i s = map snd (filter (\<lambda>te. fst te = Worker i) (trace s))"

fun isRecv :: "event \<Rightarrow> bool" where
  "isRecv (Recv j) = True"
| "isRecv e = False"

fun phaseOf :: "wstate \<Rightarrow> phase" where
  "phaseOf WIdle = Outside"
| "phaseOf (WGot j) = Received"
| "phaseOf (WLoop j base ls) = Expanding"
| "phaseOf (WAppend j base absUrl ls) = Expanding"
| "phaseOf (WAdd j base absUrl ls) = Expanding"
| "phaseOf (WSend j base absUrl ls) = Incremented"
| "phaseOf (WDone j) = Closing"
| "phaseOf WExit = Finished"

fun inJob :: "phase \<Rightarrow> bool" where
  "inJob Outside = False"
| "inJob Finished = False"
| "inJob ph = True"

subsection \<open>Where the colon of a reference stands\<close>

definition colonBeforeSlash :: "string \<Rightarrow> bool" where
  "colonBeforeSlash href = (CHR '':'' \<in> set (takeWhile (\<lambda>c. c \<noteq> CHR ''/'') href))"

subsection \<open>Equality up to letter case\<close>

text \<open>
  What it means for two hosts to be equal under a case-insensitive comparison, said
  without the library: the strings have the same length and, position by position, the
  two bytes are the same or are the upper-case and the lower-case form of one letter.
  This says it for hosts written in ASCII, where the letters are the 26 of the alphabet.
\<close>

definition letters :: "(char \<times> char) list" where
  "letters = zip ''ABCDEFGHIJKLMNOPQRSTUVWXYZ'' ''abcdefghijklmnopqrstuvwxyz''"

definition sameLetter :: "char \<Rightarrow> char \<Rightarrow> bool" where
  "sameLetter c d \<longleftrightarrow> c = d \<or> (c, d) \<in> set letters \<or> (d, c) \<in> set letters"

definition caseless :: "string \<Rightarrow> string \<Rightarrow> bool" where
  "caseless h k \<longleftrightarrow> list_all2 sameLetter h k"

definition ascii :: "string \<Rightarrow> bool" where
  "ascii h \<longleftrightarrow> list_all (\<lambda>c. (of_char c :: nat) < 128) h"

section \<open>A small library for the examples\<close>

text \<open>
  The examples need the library functions at a few addresses. \<open>miniParse\<close>,
  \<open>miniString\<close> and \<open>miniResolve\<close> do what \<^verbatim>\<open>net/url\<close> does on the addresses used
  below: lower-case \<open>http\<close> and \<open>https\<close> URLs of the form \<open>scheme://host/path?query#fragment\<close>,
  references without a scheme, and the opaque form that \<open>resolveURL\<close> builds for a
  reference beginning with two slashes; paths have no dot segments and nothing is
  escaped. A string beginning with a colon does not parse (\<^verbatim>\<open>url.Parse\<close> reports a
  missing protocol scheme). The pages of a site are a table from addresses to responses,
  and the HTML parser is a table from bodies to links. The hosts of the examples are
  written in ASCII, so the comparison of runes is never reached; it is given as equality.
\<close>

definition splitAt :: "char \<Rightarrow> string \<Rightarrow> string \<times> string" where
  "splitAt c s = (takeWhile (\<lambda>x. x \<noteq> c) s, drop 1 (dropWhile (\<lambda>x. x \<noteq> c) s))"

definition miniAuthority :: "string \<Rightarrow> string \<Rightarrow> string \<Rightarrow> string \<Rightarrow> URL" where
  "miniAuthority sch rest q f =
     \<lparr>Scheme = sch, Opaque = [], User = None,
      Host = takeWhile (\<lambda>x. x \<noteq> CHR ''/'') rest,
      Path = dropWhile (\<lambda>x. x \<noteq> CHR ''/'') rest,
      RawPath = [], RawQuery = q, Fragment = f, RawFragment = []\<rparr>"

definition miniParse :: "string \<Rightarrow> URL option" where
  "miniParse s =
     (let (s1, f) = splitAt CHR ''#'' s; (s2, q) = splitAt CHR ''?'' s1 in
      if prefix '':'' s2 then None
      else if prefix ''http://'' s2 then Some (miniAuthority ''http'' (drop 7 s2) q f)
      else if prefix ''https://'' s2 then Some (miniAuthority ''https'' (drop 8 s2) q f)
      else if prefix ''//'' s2 then Some (miniAuthority [] (drop 2 s2) q f)
      else Some \<lparr>Scheme = [], Opaque = [], User = None, Host = [], Path = s2,
                 RawPath = [], RawQuery = q, Fragment = f, RawFragment = []\<rparr>)"

definition miniString :: "URL \<Rightarrow> string" where
  "miniString u =
     (if Scheme u = [] then [] else Scheme u @ '':'') @
     (if Opaque u \<noteq> [] then Opaque u
      else (if Scheme u \<noteq> [] \<or> Host u \<noteq> [] then ''//'' @ Host u else []) @ Path u) @
     (if RawQuery u = [] then [] else ''?'' @ RawQuery u) @
     (if Fragment u = [] then [] else ''#'' @ Fragment u)"

definition miniDir :: "string \<Rightarrow> string" where
  "miniDir p = rev (dropWhile (\<lambda>x. x \<noteq> CHR ''/'') (rev p))"

definition miniResolve :: "URL \<Rightarrow> URL \<Rightarrow> URL" where
  "miniResolve b r =
     (let r1 = (if Scheme r = [] then r\<lparr>Scheme := Scheme b\<rparr> else r) in
      if Scheme r \<noteq> [] \<or> Host r \<noteq> [] then r1
      else if Path r = [] then
        r1\<lparr>Host := Host b, Path := Path b,
           RawQuery := (if RawQuery r = [] then RawQuery b else RawQuery r)\<rparr>
      else if prefix ''/'' (Path r) then r1\<lparr>Host := Host b\<rparr>
      else r1\<lparr>Host := Host b, Path := miniDir (Path b) @ Path r\<rparr>)"

definition miniLib :: "(string \<times> response) list \<Rightarrow> (string \<times> link list) list \<Rightarrow> lib" where
  "miniLib pages docs =
     \<lparr>urlParse = miniParse, urlString = miniString, resolveReference = miniResolve,
      httpGet = map_of pages, linkParse = map_of docs, foldRunes = (=)\<rparr>"

definition htmlPage :: "string \<Rightarrow> response" where
  "htmlPage body = \<lparr>StatusCode = 200, ContentType = ''text/html; charset=utf-8'', Body = body\<rparr>"

definition anchor :: "string \<Rightarrow> link" where
  "anchor href = \<lparr>Href = href, Text = []\<rparr>"

section \<open>Running a schedule\<close>

text \<open>
  What \<open>buildSitemap\<close> has returned after the goroutines have run in the order of a
  schedule (\<open>None\<close> when a goroutine of the schedule could not step, or when the function
  has not returned), and whether the crawl is stuck after a schedule with every worker
  blocked in its send.
\<close>

definition result :: "config \<Rightarrow> thread list \<Rightarrow> (string list \<times> error option) option" where
  "result cfg sched = (case run cfg sched (init cfg) of None \<Rightarrow> None | Some s \<Rightarrow> returned s)"

definition outputOf :: "config \<Rightarrow> thread list \<Rightarrow> string list option" where
  "outputOf cfg sched = (case run cfg sched (init cfg) of None \<Rightarrow> None | Some s \<Rightarrow> Some (finalURLs s))"

definition stuck :: "config \<Rightarrow> thread list \<Rightarrow> bool" where
  "stuck cfg sched =
     (case run cfg sched (init cfg) of
        None \<Rightarrow> False
      | Some s \<Rightarrow> deadlocked cfg s \<and> allBlockedSending cfg s)"

text \<open>The state after a schedule (the first state when a goroutine of it could not step).\<close>

definition stateAfter :: "config \<Rightarrow> thread list \<Rightarrow> state" where
  "stateAfter cfg sched = (case run cfg sched (init cfg) of None \<Rightarrow> init cfg | Some s \<Rightarrow> s)"

section \<open>Invariants\<close>

text \<open>
  The program has not panicked, the counter of the wait group is the number of jobs in
  flight, and the channel is closed only after the counter has been seen at zero, from
  where on it stays there.
\<close>

definition counted :: "state \<Rightarrow> bool" where
  "counted s \<longleftrightarrow>
     \<not> crashed s \<and> tasks s = outstanding s \<and>
     (closer s \<noteq> CWait \<longrightarrow> tasks s = 0) \<and> (closed s \<longrightarrow> closer s = CDone)"

text \<open>
  Every address of the visited set is once in the output, or held once by the worker that
  has admitted it and is about to append it.
\<close>

definition admitted :: "state \<Rightarrow> bool" where
  "admitted s \<longleftrightarrow>
     finite (visited s) \<and>
     mset_set (visited s) = mset (finalURLs s) + sum_list (map pending (workers s))"

text \<open>
  The output begins with the start address, it holds the address of every job, and what
  has been returned is the output with a \<open>nil\<close> error, all workers having ended.
\<close>

definition seeded :: "config \<Rightarrow> state \<Rightarrow> bool" where
  "seeded cfg s \<longleftrightarrow>
     finalURLs s \<noteq> [] \<and> hd (finalURLs s) = startURL cfg \<and>
     (\<forall>j \<in> allJobs cfg s. url j \<in> set (finalURLs s)) \<and>
     (\<forall>r. returned s = Some r \<longrightarrow> r = (finalURLs s, None) \<and> (\<forall>w \<in> set (workers s). w = WExit))"

text \<open>No visited address but the start address has an extension of the table.\<close>

definition filtered :: "config \<Rightarrow> state \<Rightarrow> bool" where
  "filtered cfg s \<longleftrightarrow> (\<forall>u \<in> visited s. u = startURL cfg \<or> \<not> ignoredExt cfg u)"

text \<open>The history of every worker is accepted by the observer, which ends where the worker stands.\<close>

definition observed :: "state \<Rightarrow> bool" where
  "observed s \<longleftrightarrow>
     (\<forall>i < length (workers s).
        observeAll Outside (eventsOf i s) = Some (phaseOf (workers s ! i)))"

text \<open>
  A worker inside the loop over the links is below the depth ceiling, and the links it
  still has to look at are links of the page of its job; what it has admitted is a child
  of that page. Every job is at a depth of zero or more, its address within that many
  links of the start, and the visited addresses are within \<open>maxDepth - 1\<close> links.
\<close>

definition fromPage :: "config \<Rightarrow> job \<Rightarrow> URL \<Rightarrow> link list \<Rightarrow> bool" where
  "fromPage cfg j base ls \<longleftrightarrow>
     depth j + 1 < maxDepth cfg \<and> getBaseURL (library cfg) (url j) = Some base \<and>
     (\<exists>foundLinks. getAndParseLinks (library cfg) (url j) = Inr foundLinks \<and>
                   set ls \<subseteq> set foundLinks)"

fun expanding :: "config \<Rightarrow> wstate \<Rightarrow> bool" where
  "expanding cfg (WLoop j base ls) = fromPage cfg j base ls"
| "expanding cfg (WAppend j base absUrl ls) =
     (fromPage cfg j base ls \<and> absUrl \<in> children cfg (url j))"
| "expanding cfg (WAdd j base absUrl ls) =
     (fromPage cfg j base ls \<and> absUrl \<in> children cfg (url j))"
| "expanding cfg (WSend j base absUrl ls) =
     (fromPage cfg j base ls \<and> absUrl \<in> children cfg (url j))"
| "expanding cfg w = True"

definition bounded :: "config \<Rightarrow> state \<Rightarrow> bool" where
  "bounded cfg s \<longleftrightarrow>
     (\<forall>j \<in> allJobs cfg s. 0 \<le> depth j \<and> url j \<in> within cfg (nat (depth j))) \<and>
     (\<forall>w \<in> set (workers s). expanding cfg w) \<and>
     visited s \<subseteq> within cfg (nat (maxDepth cfg - 1))"

text \<open>The channel is closed once the closing goroutine has finished, and before any worker ends.\<close>

definition closing :: "state \<Rightarrow> bool" where
  "closing s \<longleftrightarrow> (closer s = CDone \<longrightarrow> closed s) \<and> (WExit \<in> set (workers s) \<longrightarrow> closed s)"

section \<open>Example sites\<close>

text \<open>
  The chain of the specification's scenario: page \<open>a\<close> links to \<open>b\<close>, \<open>b\<close> to \<open>c\<close>,
  \<open>c\<close> to \<open>d\<close>; the crawl starts at \<open>a\<close> with \<open>maxDepth = 2\<close> and \<open>n\<close> workers.
\<close>

definition chainLib :: lib where
  "chainLib =
     miniLib
       [(''http://h/a'', htmlPage ''A''), (''http://h/b'', htmlPage ''B''),
        (''http://h/c'', htmlPage ''C''), (''http://h/d'', htmlPage ''D'')]
       [(''A'', [anchor ''/b'']), (''B'', [anchor ''/c'']),
        (''C'', [anchor ''/d'']), (''D'', [])]"

definition chainCfg :: "int \<Rightarrow> config" where
  "chainCfg n = \<lparr>library = chainLib, startURL = ''http://h/a'', maxDepth = 2, numWorkers = n\<rparr>"

definition chainSchedule :: "thread list" where
  "chainSchedule =
     [Feeder, Worker 0, Worker 0, Worker 0, Worker 0, Worker 0, Worker 0, Worker 0,
      Worker 0, Worker 0, Worker 0, Closer, Closer, Worker 0, Main]"

text \<open>
  A start page that links to a stylesheet and to \<open>/about\<close>; two workers, the default
  depth of 3.
\<close>

definition styleCfg :: config where
  "styleCfg =
     \<lparr>library =
        miniLib
          [(''http://h/'', htmlPage ''home''), (''http://h/about'', htmlPage ''about''),
           (''http://h/style.css'',
              \<lparr>StatusCode = 200, ContentType = ''text/css'', Body = ''body {}''\<rparr>)]
          [(''home'', [anchor ''style.css'', anchor ''/about'']), (''about'', [])],
      startURL = ''http://h/'', maxDepth = 3, numWorkers = 2\<rparr>"

definition styleSchedule :: "thread list" where
  "styleSchedule =
     [Feeder, Worker 0, Worker 0, Worker 0, Worker 0, Worker 0, Worker 0, Worker 0,
      Worker 0, Worker 1, Worker 1, Worker 1, Closer, Closer, Worker 0, Worker 1, Main]"

text \<open>
  A crawl that starts at a stylesheet address whose page is served as HTML and links to
  itself.
\<close>

definition cssStartCfg :: config where
  "cssStartCfg =
     \<lparr>library = miniLib [(''http://h/a.css'', htmlPage ''self'')] [(''self'', [anchor ''a.css''])],
      startURL = ''http://h/a.css'', maxDepth = 3, numWorkers = 1\<rparr>"

definition cssSchedule :: "thread list" where
  "cssSchedule =
     [Feeder, Worker 0, Worker 0, Worker 0, Worker 0, Closer, Closer, Worker 0, Main]"

text \<open>A start page with two links to pages of the same host, crawled by one worker.\<close>

definition forkCfg :: config where
  "forkCfg =
     \<lparr>library =
        miniLib
          [(''http://h/'', htmlPage ''home''), (''http://h/x'', htmlPage ''leaf''),
           (''http://h/y'', htmlPage ''leaf'')]
          [(''home'', [anchor ''/x'', anchor ''/y'']), (''leaf'', [])],
      startURL = ''http://h/'', maxDepth = 3, numWorkers = 1\<rparr>"

definition forkSchedule :: "thread list" where
  "forkSchedule =
     [Feeder, Worker 0, Worker 0, Worker 0, Worker 0, Worker 0, Worker 0, Worker 0,
      Worker 0, Worker 0]"

text \<open>A start address that does not parse and cannot be fetched.\<close>

definition badStartCfg :: config where
  "badStartCfg =
     \<lparr>library = miniLib [] [], startURL = '':bad'', maxDepth = 3, numWorkers = 1\<rparr>"

definition badSchedule :: "thread list" where
  "badSchedule = [Feeder, Worker 0, Worker 0, Worker 0, Closer, Closer, Worker 0, Main]"

text \<open>A start page that links to a page which answers with status 500.\<close>

definition errorCfg :: config where
  "errorCfg =
     \<lparr>library =
        miniLib
          [(''http://h/'', htmlPage ''home''),
           (''http://h/e'', \<lparr>StatusCode = 500, ContentType = ''text/html'', Body = ''failed''\<rparr>)]
          [(''home'', [anchor ''/e'']), (''failed'', [anchor ''/never''])],
      startURL = ''http://h/'', maxDepth = 3, numWorkers = 1\<rparr>"

definition errorSchedule :: "thread list" where
  "errorSchedule =
     [Feeder, Worker 0, Worker 0, Worker 0, Worker 0, Worker 0, Worker 0, Worker 0, Worker 0]"

definition errorRest :: "thread list" where
  "errorRest = [Worker 0, Worker 0, Closer, Closer, Worker 0, Main]"

definition exampleBase :: URL where
  "exampleBase =
     \<lparr>Scheme = ''http'', Opaque = [], User = None, Host = ''h'', Path = ''/a/b'',
      RawPath = [], RawQuery = [], Fragment = [], RawFragment = []\<rparr>"

text \<open>The states of the examples after their schedules.\<close>

definition chainEnd :: state where
  "chainEnd = stateAfter (chainCfg 1) chainSchedule"

definition styleEnd :: state where
  "styleEnd = stateAfter styleCfg styleSchedule"

definition badEnd :: state where
  "badEnd = stateAfter badStartCfg badSchedule"

definition errorMid :: state where
  "errorMid = stateAfter errorCfg errorSchedule"

definition errorEnd :: state where
  "errorEnd = stateAfter errorCfg (errorSchedule @ errorRest)"

section \<open>The first revision: a sequential work list\<close>

text \<open>
  \<^verbatim>\<open>src/main.go\<close> is the first revision of the program: \<open>buildSitemap(startURL, maxDepth)\<close>
  without goroutines. It is modelled to compare its depth rule with the one of the crawl
  engine above: here the test \<^verbatim>\<open>currentDepth+1 < maxDepth\<close> guards the enqueueing only,
  after the address has been appended to the output.
\<close>

text \<open>
  \<^verbatim>\<open>resolveURL\<close> and \<^verbatim>\<open>isSameDomain\<close> as they were then: fewer prefixes, no test of the
  resolved scheme, and hosts compared byte for byte.
\<close>

definition resolveURL0 :: "lib \<Rightarrow> URL option \<Rightarrow> link \<Rightarrow> string" where
  "resolveURL0 L base l =
     (case base of
        None \<Rightarrow> []
      | Some b \<Rightarrow>
          if Href l = [] then []
          else if prefix ''#'' (Href l) \<or> prefix ''mailto:'' (toLower (Href l)) \<or>
                  prefix ''javascript:'' (toLower (Href l)) \<or> prefix ''tel:'' (toLower (Href l))
          then []
          else
            (case urlParse L (Href l) of
               None \<Rightarrow> []
             | Some relativeURL \<Rightarrow>
                 urlString L ((resolveReference L b relativeURL)\<lparr>Fragment := []\<rparr>)))"

definition isSameDomain0 :: "lib \<Rightarrow> string \<Rightarrow> string \<Rightarrow> bool" where
  "isSameDomain0 L startURLStr targetURLStr =
     (case urlParse L startURLStr of
        None \<Rightarrow> False
      | Some start \<Rightarrow>
          (case urlParse L targetURLStr of
             None \<Rightarrow> False
           | Some target \<Rightarrow> Host start = Host target))"

text \<open>
  The state of the loop: the map \<open>queue\<close> from the addresses still to process to their
  depths, the map \<open>visited\<close> (its keys) and the slice \<open>finalURLs\<close>. Go ranges over a map
  in an order it does not fix; the queue is an association list with distinct keys, and
  an iteration may take any key of it.
\<close>

record worklist =
  queue0 :: "(string \<times> int) list"
  visited0 :: "string set"
  finalURLs0 :: "string list"

definition init0 :: "config \<Rightarrow> worklist" where
  "init0 cfg =
     \<lparr>queue0 = [(startURL cfg, 0)], visited0 = {startURL cfg}, finalURLs0 = [startURL cfg]\<rparr>"

text \<open>The body of the loop over the links, and one iteration of the outer loop.\<close>

definition visitLink0 :: "config \<Rightarrow> URL option \<Rightarrow> int \<Rightarrow> worklist \<Rightarrow> link \<Rightarrow> worklist" where
  "visitLink0 cfg base currentDepth st l =
     (let absoluteURL = resolveURL0 (library cfg) base l in
      if absoluteURL = [] then st
      else if isSameDomain0 (library cfg) (startURL cfg) absoluteURL \<and>
              absoluteURL \<notin> visited0 st
      then
        st\<lparr>visited0 := insert absoluteURL (visited0 st),
           finalURLs0 := finalURLs0 st @ [absoluteURL],
           queue0 := (if currentDepth + 1 < maxDepth cfg
                      then AList.update absoluteURL (currentDepth + 1) (queue0 st)
                      else queue0 st)\<rparr>
      else st)"

definition iterate0 :: "config \<Rightarrow> string \<Rightarrow> worklist \<Rightarrow> worklist option" where
  "iterate0 cfg currentURL st =
     (case map_of (queue0 st) currentURL of
        None \<Rightarrow> None
      | Some currentDepth \<Rightarrow>
          (let st1 = st\<lparr>queue0 := AList.delete currentURL (queue0 st)\<rparr> in
           if currentDepth \<ge> maxDepth cfg then Some st1
           else
             (case getAndParseLinks (library cfg) currentURL of
                Inl err \<Rightarrow> Some st1
              | Inr foundLinks \<Rightarrow>
                  Some (foldl (visitLink0 cfg (getBaseURL (library cfg) currentURL) currentDepth)
                          st1 foundLinks))))"

text \<open>
  The states the loop can be in; it ends, and the function returns \<open>finalURLs\<close>, when
  the queue is empty.
\<close>

inductive reachable0 :: "config \<Rightarrow> worklist \<Rightarrow> bool" for cfg :: config where
  start0: "reachable0 cfg (init0 cfg)"
| step0: "reachable0 cfg st \<Longrightarrow> iterate0 cfg u st = Some st' \<Longrightarrow> reachable0 cfg st'"

text \<open>The two states after the start, on the chain.\<close>

definition chainAfterA :: worklist where
  "chainAfterA =
     \<lparr>queue0 = [(''http://h/b'', 1)], visited0 = {''http://h/a'', ''http://h/b''},
      finalURLs0 = [''http://h/a'', ''http://h/b'']\<rparr>"

definition chainAfterB :: worklist where
  "chainAfterB =
     \<lparr>queue0 = [], visited0 = {''http://h/a'', ''http://h/b'', ''http://h/c''},
      finalURLs0 = [''http://h/a'', ''http://h/b'', ''http://h/c'']\<rparr>"

section \<open>Steps\<close>

lemma setWorker_simps [simp]:
  "workers (setWorker i w s) = (workers s)[i := w]"
  "jobs (setWorker i w s) = jobs s"
  "closed (setWorker i w s) = closed s"
  "tasks (setWorker i w s) = tasks s"
  "visited (setWorker i w s) = visited s"
  "finalURLs (setWorker i w s) = finalURLs s"
  "feeder (setWorker i w s) = feeder s"
  "closer (setWorker i w s) = closer s"
  "returned (setWorker i w s) = returned s"
  "crashed (setWorker i w s) = crashed s"
  "trace (setWorker i w s) = trace s"
  by (simp_all add: setWorker_def)

text \<open>Every step is one of the following.\<close>

lemma exec_cases [consumes 1, case_names Feed FeedPanic WaitOver Close Return Recv Exit
    Fetch Skip Seen Admit Append Add Send SendPanic Done DonePanic]:
  assumes "exec cfg t s = Some s'"
  obtains
    (Feed) "t = Feeder" "\<not> crashed s" "feeder s" "\<not> closed s" "length (jobs s) < capacity cfg"
      "s' = s\<lparr>jobs := jobs s @ [\<lparr>url = startURL cfg, depth = 0\<rparr>], feeder := False,
              trace := trace s @ [(t, Send \<lparr>url = startURL cfg, depth = 0\<rparr>)]\<rparr>"
  | (FeedPanic) "t = Feeder" "\<not> crashed s" "feeder s" "closed s"
      "s' = s\<lparr>crashed := True, trace := trace s @ [(t, Panic)]\<rparr>"
  | (WaitOver) "t = Closer" "\<not> crashed s" "closer s = CWait" "tasks s = 0"
      "s' = s\<lparr>closer := CClose, trace := trace s @ [(t, WaitOver)]\<rparr>"
  | (Close) "t = Closer" "\<not> crashed s" "closer s = CClose"
      "s' = s\<lparr>closed := True, closer := CDone, trace := trace s @ [(t, Close)]\<rparr>"
  | (Return) "t = Main" "\<not> crashed s" "returned s = None" "\<forall>w \<in> set (workers s). w = WExit"
      "s' = s\<lparr>returned := Some (finalURLs s, None), trace := trace s @ [(t, Return)]\<rparr>"
  | (Recv) i j rest where "t = Worker i" "\<not> crashed s" "i < length (workers s)"
      "workers s ! i = WIdle" "jobs s = j # rest"
      "s' = (setWorker i (WGot j) (s\<lparr>jobs := rest\<rparr>))\<lparr>trace := trace s @ [(t, Recv j)]\<rparr>"
  | (Exit) i where "t = Worker i" "\<not> crashed s" "i < length (workers s)"
      "workers s ! i = WIdle" "jobs s = []" "closed s"
      "s' = (setWorker i WExit s)\<lparr>trace := trace s @ [(t, Exit)]\<rparr>"
  | (Fetch) i j where "t = Worker i" "\<not> crashed s" "i < length (workers s)"
      "workers s ! i = WGot j"
      "s' = (setWorker i (snd (fetchStep cfg j)) s)
              \<lparr>trace := trace s @ [(t, Fetch (url j) (fst (fetchStep cfg j)))]\<rparr>"
  | (Skip) i j base l ls where "t = Worker i" "\<not> crashed s" "i < length (workers s)"
      "workers s ! i = WLoop j base (l # ls)" "\<forall>u. examine cfg base l \<noteq> Candidate u"
      "s' = (setWorker i (WLoop j base ls) s)\<lparr>trace := trace s @ [(t, Reject l)]\<rparr>"
  | (Seen) i j base l ls u where "t = Worker i" "\<not> crashed s" "i < length (workers s)"
      "workers s ! i = WLoop j base (l # ls)" "examine cfg base l = Candidate u"
      "u \<in> visited s"
      "s' = (setWorker i (WLoop j base ls) s)\<lparr>trace := trace s @ [(t, LoadOrStore u True)]\<rparr>"
  | (Admit) i j base l ls u where "t = Worker i" "\<not> crashed s" "i < length (workers s)"
      "workers s ! i = WLoop j base (l # ls)" "examine cfg base l = Candidate u"
      "u \<notin> visited s"
      "s' = (setWorker i (WAppend j base u ls) (s\<lparr>visited := insert u (visited s)\<rparr>))
              \<lparr>trace := trace s @ [(t, LoadOrStore u False)]\<rparr>"
  | (Append) i j base u ls where "t = Worker i" "\<not> crashed s" "i < length (workers s)"
      "workers s ! i = WAppend j base u ls"
      "s' = (setWorker i (WAdd j base u ls) (s\<lparr>finalURLs := finalURLs s @ [u]\<rparr>))
              \<lparr>trace := trace s @ [(t, Append u)]\<rparr>"
  | (Add) i j base u ls where "t = Worker i" "\<not> crashed s" "i < length (workers s)"
      "workers s ! i = WAdd j base u ls"
      "s' = (setWorker i (WSend j base u ls) (s\<lparr>tasks := tasks s + 1\<rparr>))
              \<lparr>trace := trace s @ [(t, Add)]\<rparr>"
  | (Send) i j base u ls where "t = Worker i" "\<not> crashed s" "i < length (workers s)"
      "workers s ! i = WSend j base u ls" "\<not> closed s" "length (jobs s) < capacity cfg"
      "s' = (setWorker i (WLoop j base ls)
               (s\<lparr>jobs := jobs s @ [\<lparr>url = u, depth = depth j + 1\<rparr>]\<rparr>))
              \<lparr>trace := trace s @ [(t, Send \<lparr>url = u, depth = depth j + 1\<rparr>)]\<rparr>"
  | (SendPanic) i j base u ls where "t = Worker i" "\<not> crashed s" "i < length (workers s)"
      "workers s ! i = WSend j base u ls" "closed s"
      "s' = s\<lparr>crashed := True, trace := trace s @ [(t, Panic)]\<rparr>"
  | (Done) i j where "t = Worker i" "\<not> crashed s" "i < length (workers s)"
      "workers s ! i = WDone j \<or> (\<exists>base. workers s ! i = WLoop j base [])" "1 \<le> tasks s"
      "s' = (setWorker i WIdle (s\<lparr>tasks := tasks s - 1\<rparr>))\<lparr>trace := trace s @ [(t, Done)]\<rparr>"
  | (DonePanic) i j where "t = Worker i" "\<not> crashed s" "i < length (workers s)"
      "workers s ! i = WDone j \<or> (\<exists>base. workers s ! i = WLoop j base [])" "tasks s < 1"
      "s' = s\<lparr>crashed := True, trace := trace s @ [(t, Panic)]\<rparr>"
proof -
  from assms have nc: "\<not> crashed s" by (auto simp: exec_def split: if_splits)
  from assms nc obtain e s0 where ts: "threadStep cfg t s = Some (e, s0)"
    and s': "s' = s0\<lparr>trace := trace s0 @ [(t, e)]\<rparr>"
    by (auto simp: exec_def split: option.splits)
  show thesis
  proof (cases t)
    case Feeder
    with ts s' nc show ?thesis
      by (auto simp: threadStep_def split: if_splits intro: Feed FeedPanic)
  next
    case Closer
    with ts s' nc show ?thesis
      by (auto simp: threadStep_def split: if_splits cstate.splits intro: WaitOver Close)
  next
    case Main
    with ts s' nc show ?thesis
      by (auto simp: threadStep_def list_all_iff split: if_splits intro: Return)
  next
    case (Worker i)
    with ts have il: "i < length (workers s)" and ws: "workerStep cfg i (workers s ! i) s = Some (e, s0)"
      by (auto simp: threadStep_def split: if_splits)
    show ?thesis
    proof (cases "workers s ! i")
      case WIdle
      with ws s' nc il Worker show ?thesis
        by (auto split: list.splits if_splits intro: Recv Exit)
    next
      case (WGot j)
      with ws s' nc il Worker show ?thesis
        by (auto intro: Fetch)
    next
      case (WLoop j base ls)
      show ?thesis
      proof (cases ls)
        case Nil
        with WLoop ws s' nc il Worker show ?thesis
          by (auto simp: doneStep_def split: if_splits intro: Done DonePanic)
      next
        case (Cons l ls')
        with WLoop ws s' nc il Worker show ?thesis
          by (cases "examine cfg base l") (auto split: if_splits intro: Skip Seen Admit)
      qed
    next
      case (WAppend j base u ls)
      with ws s' nc il Worker show ?thesis by (auto intro: Append)
    next
      case (WAdd j base u ls)
      with ws s' nc il Worker show ?thesis by (auto intro: Add)
    next
      case (WSend j base u ls)
      with ws s' nc il Worker show ?thesis by (auto split: if_splits intro: Send SendPanic)
    next
      case (WDone j)
      with ws s' nc il Worker show ?thesis
        by (auto simp: doneStep_def split: if_splits intro: Done DonePanic)
    next
      case WExit
      with ws show ?thesis by simp
    qed
  qed
qed

lemma exec_length: "exec cfg t s = Some s' \<Longrightarrow> length (workers s') = length (workers s)"
  by (cases rule: exec_cases) auto

lemma not_in_range: "\<not> i < length (workers s) \<Longrightarrow> exec cfg (Worker i) s = None"
  by (simp add: exec_def threadStep_def)

lemma finalURLs_exec:
  assumes "exec cfg t s = Some s'"
  shows "finalURLs s' = finalURLs s \<or>
         (\<exists>i j base u ls. t = Worker i \<and> i < length (workers s) \<and>
            workers s ! i = WAppend j base u ls \<and> finalURLs s' = finalURLs s @ [u])"
  using assms by (cases rule: exec_cases) auto

lemma admission_step:
  assumes "exec cfg t s = Some s'"
  shows "visited s' = visited s \<or>
         (\<exists>u. u \<notin> visited s \<and> visited s' = insert u (visited s) \<and>
              last (trace s') = (t, LoadOrStore u False))"
  using assms by (cases rule: exec_cases) auto

lemma fetchStep_cases [case_names Early Expand]:
  obtains (Early) out where "fetchStep cfg j = (out, WDone j)" "\<forall>ls. out \<noteq> Expand ls"
  | (Expand) base ls where "fetchStep cfg j = (Expand ls, WLoop j base ls)"
      "getAndParseLinks (library cfg) (url j) = Inr ls"
      "getBaseURL (library cfg) (url j) = Some base" "depth j + 1 < maxDepth cfg"
  by (cases "getAndParseLinks (library cfg) (url j)"; cases "getBaseURL (library cfg) (url j)";
      cases "depth j + 1 \<ge> maxDepth cfg") (auto simp: fetchStep_def)

lemma ceiling_drops_links: "maxDepth cfg \<le> depth j + 1 \<Longrightarrow> snd (fetchStep cfg j) = WDone j"
  by (simp add: fetchStep_def split: sum.splits)

lemma fetch_fails:
  assumes "httpGet L u = None \<or>
           (\<exists>resp. httpGet L u = Some resp \<and>
              (StatusCode resp < 200 \<or> 300 \<le> StatusCode resp \<or>
               \<not> prefix ''text/html'' (toLower (ContentType resp))))"
  shows "\<exists>err. getAndParseLinks L u = Inl err"
  using assms by (auto simp: getAndParseLinks_def)

section \<open>The wait group counts the jobs in flight\<close>

lemma sum_list_map_update:
  fixes f :: "'a \<Rightarrow> 'b::comm_monoid_add"
  shows "i < length ws \<Longrightarrow> sum_list (map f (ws[i := w])) + f (ws ! i) = sum_list (map f ws) + f w"
  by (induction ws arbitrary: i) (auto simp: ac_simps split: nat.splits)

lemma busy_update:
  "i < length ws \<Longrightarrow> sum_list (map busy (ws[i := w])) = sum_list (map busy ws) - busy (ws ! i) + busy w"
  using sum_list_map_update [of i ws busy w] by simp

lemma busy_nonneg: "0 \<le> busy w"
  by (cases w) simp_all

lemma busy_sum_nonneg: "0 \<le> sum_list (map busy ws)"
  by (induction ws) (simp_all add: busy_nonneg)

lemma busy_le_sum: "i < length ws \<Longrightarrow> busy (ws ! i) \<le> sum_list (map busy ws)"
proof (induction ws arbitrary: i)
  case Nil
  then show ?case by simp
next
  case (Cons w ws)
  show ?case
  proof (cases i)
    case 0
    then show ?thesis using busy_sum_nonneg [of ws] by simp
  next
    case (Suc k)
    then show ?thesis using Cons busy_nonneg [of w] by fastforce
  qed
qed

lemma counted_init: "0 \<le> numWorkers cfg \<Longrightarrow> counted (init cfg)"
  by (simp add: counted_def init_def outstanding_def sum_list_replicate)

lemma counted_step:
  assumes "counted s" and "exec cfg t s = Some s'"
  shows "counted s'"
  using assms(2)
proof (cases rule: exec_cases)
  case Feed
  with assms(1) busy_sum_nonneg [of "workers s"] show ?thesis
    by (auto simp: counted_def outstanding_def split: if_splits)
next
  case FeedPanic
  with assms(1) busy_sum_nonneg [of "workers s"] show ?thesis
    by (auto simp: counted_def outstanding_def split: if_splits)
next
  case WaitOver
  with assms(1) busy_sum_nonneg [of "workers s"] show ?thesis
    by (auto simp: counted_def outstanding_def split: if_splits)
next
  case Close
  with assms(1) busy_sum_nonneg [of "workers s"] show ?thesis
    by (auto simp: counted_def outstanding_def split: if_splits)
next
  case Return
  with assms(1) busy_sum_nonneg [of "workers s"] show ?thesis
    by (auto simp: counted_def outstanding_def split: if_splits)
next
  case (Recv i j rest)
  with assms(1) busy_sum_nonneg [of "workers s"] busy_le_sum [of i "workers s"] show ?thesis
    by (auto simp: counted_def outstanding_def busy_update split: if_splits)
next
  case (Exit i)
  with assms(1) busy_sum_nonneg [of "workers s"] busy_le_sum [of i "workers s"] show ?thesis
    by (auto simp: counted_def outstanding_def busy_update split: if_splits)
next
  case (Fetch i j)
  then have "busy (snd (fetchStep cfg j)) = 1"
    by (simp add: fetchStep_def split: sum.splits option.splits)
  with Fetch assms(1) busy_sum_nonneg [of "workers s"] busy_le_sum [of i "workers s"] show ?thesis
    by (auto simp: counted_def outstanding_def busy_update split: if_splits)
next
  case (Skip i j base l ls)
  with assms(1) busy_sum_nonneg [of "workers s"] busy_le_sum [of i "workers s"] show ?thesis
    by (auto simp: counted_def outstanding_def busy_update split: if_splits)
next
  case (Seen i j base l ls u)
  with assms(1) busy_sum_nonneg [of "workers s"] busy_le_sum [of i "workers s"] show ?thesis
    by (auto simp: counted_def outstanding_def busy_update split: if_splits)
next
  case (Admit i j base l ls u)
  with assms(1) busy_sum_nonneg [of "workers s"] busy_le_sum [of i "workers s"] show ?thesis
    by (auto simp: counted_def outstanding_def busy_update split: if_splits)
next
  case (Append i j base u ls)
  with assms(1) busy_sum_nonneg [of "workers s"] busy_le_sum [of i "workers s"] show ?thesis
    by (auto simp: counted_def outstanding_def busy_update split: if_splits)
next
  case (Add i j base u ls)
  with assms(1) busy_sum_nonneg [of "workers s"] busy_le_sum [of i "workers s"] show ?thesis
    by (auto simp: counted_def outstanding_def busy_update split: if_splits)
next
  case (Send i j base u ls)
  with assms(1) busy_sum_nonneg [of "workers s"] busy_le_sum [of i "workers s"] show ?thesis
    by (auto simp: counted_def outstanding_def busy_update split: if_splits)
next
  case (SendPanic i j base u ls)
  with assms(1) busy_sum_nonneg [of "workers s"] busy_le_sum [of i "workers s"] show ?thesis
    by (auto simp: counted_def outstanding_def busy_update split: if_splits)
next
  case (Done i j)
  then have b: "busy (workers s ! i) = 1" by auto
  with Done assms(1) busy_sum_nonneg [of "workers s"] busy_le_sum [of i "workers s"] show ?thesis
    by (auto simp: counted_def outstanding_def busy_update split: if_splits)
next
  case (DonePanic i j)
  then have b: "busy (workers s ! i) = 1" by auto
  with DonePanic assms(1) busy_sum_nonneg [of "workers s"] busy_le_sum [of i "workers s"] show ?thesis
    by (auto simp: counted_def outstanding_def busy_update split: if_splits)
qed

lemma reachable_counted: "reachable cfg s \<Longrightarrow> 0 \<le> numWorkers cfg \<Longrightarrow> counted s"
  by (induction rule: reachable.induct) (auto intro: counted_init counted_step)

lemma reachable_not_crashed:
  "reachable cfg s \<Longrightarrow> exec cfg t s = Some s' \<Longrightarrow> \<not> crashed s'"
proof -
  assume r: "reachable cfg s" and e: "exec cfg t s = Some s'"
  from e have "\<not> crashed s" by (auto simp: exec_def split: if_splits)
  with r have "0 \<le> numWorkers cfg"
    by (induction rule: reachable.induct) (auto simp: init_def exec_def split: if_splits)
  with r have "counted s" by (rule reachable_counted)
  from this e have "counted s'" by (rule counted_step)
  then show ?thesis by (simp add: counted_def)
qed

lemma reachable_length: "reachable cfg s \<Longrightarrow> length (workers s) = nat (numWorkers cfg)"
  by (induction rule: reachable.induct) (auto simp: init_def exec_length)

lemma done_enabled:
  assumes "reachable cfg s" and "i < length (workers s)"
    and "workers s ! i = WDone j \<or> workers s ! i = WLoop j base []"
  shows "\<exists>s'. exec cfg (Worker i) s = Some s' \<and> tasks s' = tasks s - 1 \<and>
              workers s' ! i = WIdle \<and> finalURLs s' = finalURLs s \<and> jobs s' = jobs s \<and>
              visited s' = visited s \<and> trace s' = trace s @ [(Worker i, Done)]"
proof -
  from assms(1,2) have "0 \<le> numWorkers cfg" by (simp add: reachable_length)
  with assms(1) have c: "counted s" by (rule reachable_counted)
  from assms(3) have "busy (workers s ! i) = 1" by auto
  with busy_le_sum [OF assms(2)] busy_sum_nonneg [of "workers s"] c have "1 \<le> tasks s"
    by (simp add: counted_def outstanding_def)
  with c assms(2,3) show ?thesis
    by (auto simp: exec_def threadStep_def doneStep_def counted_def)
qed

section \<open>Every visited address is listed once or about to be\<close>

lemma pending_fetchStep: "pending (snd (fetchStep cfg j)) = {#}"
  by (cases cfg j rule: fetchStep_cases) simp_all

lemma pending_update:
  "i < length ws \<Longrightarrow>
   sum_list (map pending (ws[i := w])) + pending (ws ! i) = sum_list (map pending ws) + pending w"
  by (rule sum_list_map_update)

lemma pending_replicate: "sum_list (replicate n ({#} :: string multiset)) = {#}"
  by (induction n) simp_all

lemma admitted_init: "admitted (init cfg)"
  by (simp add: admitted_def init_def pending_replicate)

lemma admitted_step:
  assumes "admitted s" and "exec cfg t s = Some s'"
  shows "admitted s'"
  using assms(2)
proof (cases rule: exec_cases)
  case (Recv i j rest)
  with assms(1) pending_update [of i "workers s" "WGot j"] show ?thesis
    by (simp add: admitted_def)
next
  case (Exit i)
  with assms(1) pending_update [of i "workers s" WExit] show ?thesis
    by (simp add: admitted_def)
next
  case (Fetch i j)
  with assms(1) pending_update [of i "workers s" "snd (fetchStep cfg j)"] show ?thesis
    by (simp add: admitted_def pending_fetchStep)
next
  case (Skip i j base l ls)
  with assms(1) pending_update [of i "workers s" "WLoop j base ls"] show ?thesis
    by (simp add: admitted_def)
next
  case (Seen i j base l ls u)
  with assms(1) pending_update [of i "workers s" "WLoop j base ls"] show ?thesis
    by (simp add: admitted_def)
next
  case (Admit i j base l ls u)
  with assms(1) pending_update [of i "workers s" "WAppend j base u ls"] show ?thesis
    by (simp add: admitted_def)
next
  case (Append i j base u ls)
  with assms(1) pending_update [of i "workers s" "WAdd j base u ls"] show ?thesis
    by (simp add: admitted_def)
next
  case (Add i j base u ls)
  with assms(1) pending_update [of i "workers s" "WSend j base u ls"] show ?thesis
    by (simp add: admitted_def)
next
  case (Send i j base u ls)
  with assms(1) pending_update [of i "workers s" "WLoop j base ls"] show ?thesis
    by (simp add: admitted_def)
next
  case (Done i j)
  then have "pending (workers s ! i) = {#}" by auto
  with Done assms(1) pending_update [of i "workers s" WIdle] show ?thesis
    by (simp add: admitted_def)
qed (use assms(1) in \<open>simp_all add: admitted_def\<close>)

lemma reachable_admitted: "reachable cfg s \<Longrightarrow> admitted s"
  by (induction rule: reachable.induct) (auto intro: admitted_init admitted_step)

lemma admitted_distinct:
  assumes "admitted s"
  shows "distinct (finalURLs s)" and "set (finalURLs s) \<subseteq> visited s"
proof -
  from assms have fin: "finite (visited s)"
    and eq: "mset_set (visited s) = mset (finalURLs s) + sum_list (map pending (workers s))"
    by (simp_all add: admitted_def)
  have le: "count (mset (finalURLs s)) x \<le> count (mset_set (visited s)) x" for x
    by (simp add: eq)
  have "count (mset (finalURLs s)) x \<le> 1" for x
  proof -
    have "count (mset_set (visited s)) x \<le> 1" by (simp add: count_mset_set')
    with le [of x] show ?thesis by linarith
  qed
  then show "distinct (finalURLs s)"
    by (simp add: distinct_count_atmost_1 count_mset_0_iff le_Suc_eq) 
  show "set (finalURLs s) \<subseteq> visited s"
  proof
    fix x assume "x \<in> set (finalURLs s)"
    then have "0 < count (mset (finalURLs s)) x" by simp
    with le [of x] have "0 < count (mset_set (visited s)) x" by linarith
    then show "x \<in> visited s" by (simp add: count_mset_set' split: if_splits)
  qed
qed

lemma reachable_distinct: "reachable cfg s \<Longrightarrow> distinct (finalURLs s)"
  by (rule admitted_distinct(1) [OF reachable_admitted])

lemma reachable_output_visited: "reachable cfg s \<Longrightarrow> set (finalURLs s) \<subseteq> visited s"
  by (rule admitted_distinct(2) [OF reachable_admitted])

lemma singleton_list: "distinct l \<Longrightarrow> set l \<subseteq> {x} \<Longrightarrow> l \<noteq> [] \<Longrightarrow> l = [x]"
  by (cases l; cases "tl l") auto

section \<open>The addresses of all jobs are in the output\<close>

lemma current_in_allJobs:
  "i < length (workers s) \<Longrightarrow> j \<in> set (current (workers s ! i)) \<Longrightarrow> j \<in> allJobs cfg s"
  by (auto simp: allJobs_def intro: nth_mem)

lemma allJobs_update:
  assumes "j' \<in> allJobs cfg s'"
    and "feeder s' \<longrightarrow> feeder s"
    and "set (jobs s') \<subseteq> allJobs cfg s"
    and "workers s' = (workers s)[i := w]"
    and "set (current w) \<subseteq> allJobs cfg s"
  shows "j' \<in> allJobs cfg s"
proof -
  have "set (workers s') \<subseteq> insert w (set (workers s))"
    using assms(4) by (simp add: set_update_subset_insert)
  with assms show ?thesis
    by (auto simp: allJobs_def split: if_splits)
qed

lemma allJobs_exec:
  assumes "exec cfg t s = Some s'" and "j' \<in> allJobs cfg s'"
  shows "j' \<in> allJobs cfg s \<or>
         (\<exists>i j base u ls. t = Worker i \<and> i < length (workers s) \<and>
            workers s ! i = WAppend j base u ls \<and> j' = \<lparr>url = u, depth = depth j + 1\<rparr>)"
  using assms(1)
proof (cases rule: exec_cases)
  case Feed
  with assms(2) show ?thesis by (auto simp: allJobs_def)
next
  case (Recv i j rest)
  have "j' \<in> allJobs cfg s"
  proof (rule allJobs_update [OF assms(2)])
    show "workers s' = (workers s)[i := WGot j]" using Recv by simp
    show "set (jobs s') \<subseteq> allJobs cfg s" using Recv by (auto simp: allJobs_def)
    show "set (current (WGot j)) \<subseteq> allJobs cfg s" using Recv by (auto simp: allJobs_def)
  qed (use Recv in simp)
  then show ?thesis ..
next
  case (Exit i)
  have "j' \<in> allJobs cfg s"
  proof (rule allJobs_update [OF assms(2)])
    show "workers s' = (workers s)[i := WExit]" using Exit by simp
  qed (use Exit in \<open>auto simp: allJobs_def\<close>)
  then show ?thesis ..
next
  case (Fetch i j)
  have cur: "set (current (snd (fetchStep cfg j))) = {j}"
    by (cases cfg j rule: fetchStep_cases) simp_all
  have "j' \<in> allJobs cfg s"
  proof (rule allJobs_update [OF assms(2)])
    show "workers s' = (workers s)[i := snd (fetchStep cfg j)]" using Fetch by simp
    show "set (current (snd (fetchStep cfg j))) \<subseteq> allJobs cfg s"
      using Fetch current_in_allJobs [of i s j cfg] by (simp add: cur)
  qed (use Fetch in \<open>auto simp: allJobs_def\<close>)
  then show ?thesis ..
next
  case (Skip i j base l ls)
  have "j' \<in> allJobs cfg s"
  proof (rule allJobs_update [OF assms(2)])
    show "workers s' = (workers s)[i := WLoop j base ls]" using Skip by simp
    show "set (current (WLoop j base ls)) \<subseteq> allJobs cfg s"
      using Skip current_in_allJobs [of i s j cfg] by simp
  qed (use Skip in \<open>auto simp: allJobs_def\<close>)
  then show ?thesis ..
next
  case (Seen i j base l ls u)
  have "j' \<in> allJobs cfg s"
  proof (rule allJobs_update [OF assms(2)])
    show "workers s' = (workers s)[i := WLoop j base ls]" using Seen by simp
    show "set (current (WLoop j base ls)) \<subseteq> allJobs cfg s"
      using Seen current_in_allJobs [of i s j cfg] by simp
  qed (use Seen in \<open>auto simp: allJobs_def\<close>)
  then show ?thesis ..
next
  case (Admit i j base l ls u)
  have "j' \<in> allJobs cfg (s\<lparr>visited := insert u (visited s)\<rparr>)"
  proof (rule allJobs_update [OF assms(2)])
    show "workers s' = (workers (s\<lparr>visited := insert u (visited s)\<rparr>))[i := WAppend j base u ls]"
      using Admit by simp
    show "set (current (WAppend j base u ls)) \<subseteq> allJobs cfg (s\<lparr>visited := insert u (visited s)\<rparr>)"
      using Admit current_in_allJobs [of i s j cfg] by (simp add: allJobs_def)
  qed (use Admit in \<open>auto simp: allJobs_def\<close>)
  then show ?thesis by (simp add: allJobs_def)
next
  case (Append i j base u ls)
  show ?thesis
  proof (cases "j' = \<lparr>url = u, depth = depth j + 1\<rparr>")
    case True
    with Append show ?thesis by auto
  next
    case False
    have "set (workers s') \<subseteq> insert (WAdd j base u ls) (set (workers s))"
      using Append by (simp add: set_update_subset_insert)
    with assms(2) False Append current_in_allJobs [of i s j cfg] have "j' \<in> allJobs cfg s"
      by (auto simp: allJobs_def split: if_splits)
    then show ?thesis ..
  qed
next
  case (Add i j base u ls)
  have "j' \<in> allJobs cfg (s\<lparr>tasks := tasks s + 1\<rparr>)"
  proof (rule allJobs_update [OF assms(2)])
    show "workers s' = (workers (s\<lparr>tasks := tasks s + 1\<rparr>))[i := WSend j base u ls]"
      using Add by simp
    show "set (current (WSend j base u ls)) \<subseteq> allJobs cfg (s\<lparr>tasks := tasks s + 1\<rparr>)"
      using Add current_in_allJobs [of i s _ cfg] by (auto simp: allJobs_def)
  qed (use Add in \<open>auto simp: allJobs_def\<close>)
  then show ?thesis by (simp add: allJobs_def)
next
  case (Send i j base u ls)
  have new: "\<lparr>url = u, depth = depth j + 1\<rparr> \<in> allJobs cfg s" and old: "j \<in> allJobs cfg s"
    using Send current_in_allJobs [of i s _ cfg] by auto
  have "set (workers s') \<subseteq> insert (WLoop j base ls) (set (workers s))"
    using Send by (simp add: set_update_subset_insert)
  with assms(2) Send new old have "j' \<in> allJobs cfg s"
    by (auto simp: allJobs_def split: if_splits)
  then show ?thesis ..
next
  case (Done i j)
  have "set (workers s') \<subseteq> insert WIdle (set (workers s))"
    using Done by (simp add: set_update_subset_insert)
  with assms(2) Done have "j' \<in> allJobs cfg s"
    by (auto simp: allJobs_def split: if_splits)
  then show ?thesis ..
qed (use assms(2) in \<open>auto simp: allJobs_def\<close>)

lemma exited_no_worker_step:
  assumes "exec cfg (Worker i) s = Some s'" and "\<forall>w \<in> set (workers s). w = WExit"
  shows False
proof -
  from assms(1) have il: "i < length (workers s)"
    by (auto simp: exec_def threadStep_def split: if_splits option.splits)
  with assms(2) have "workers s ! i = WExit" by simp
  with assms(1) il show False
    by (auto simp: exec_def threadStep_def split: if_splits option.splits)
qed

lemma seeded_init: "seeded cfg (init cfg)"
  by (auto simp: seeded_def init_def allJobs_def)

lemma seeded_step:
  assumes "seeded cfg s" and "exec cfg t s = Some s'"
  shows "seeded cfg s'"
proof -
  from assms(1) have ne: "finalURLs s \<noteq> []" and hd: "hd (finalURLs s) = startURL cfg"
    and js: "\<And>j. j \<in> allJobs cfg s \<Longrightarrow> url j \<in> set (finalURLs s)"
    and rt: "\<And>r. returned s = Some r \<Longrightarrow>
               r = (finalURLs s, None) \<and> (\<forall>w \<in> set (workers s). w = WExit)"
    by (auto simp: seeded_def)
  from finalURLs_exec [OF assms(2)] ne hd
  have ne': "finalURLs s' \<noteq> []" and hd': "hd (finalURLs s') = startURL cfg"
    and sub: "set (finalURLs s) \<subseteq> set (finalURLs s')"
    by auto
  have js': "url j' \<in> set (finalURLs s')" if "j' \<in> allJobs cfg s'" for j'
    using allJobs_exec [OF assms(2) that]
  proof
    assume "j' \<in> allJobs cfg s"
    with js sub show ?thesis by blast
  next
    assume "\<exists>i j base u ls. t = Worker i \<and> i < length (workers s) \<and>
              workers s ! i = WAppend j base u ls \<and> j' = \<lparr>url = u, depth = depth j + 1\<rparr>"
    then obtain i j base u ls where "t = Worker i" "i < length (workers s)"
      "workers s ! i = WAppend j base u ls" "j' = \<lparr>url = u, depth = depth j + 1\<rparr>"
      by blast
    with assms(2) show ?thesis
      by (auto simp: exec_def threadStep_def split: if_splits)
  qed
  have rt': "r = (finalURLs s', None) \<and> (\<forall>w \<in> set (workers s'). w = WExit)"
    if "returned s' = Some r" for r
    using assms(2)
  proof (cases rule: exec_cases)
    case Return
    with that show ?thesis by auto
  qed (use that rt exited_no_worker_step [of cfg _ s s'] assms(2) in \<open>auto\<close>)
  from ne' hd' js' rt' show ?thesis by (auto simp: seeded_def)
qed

lemma reachable_seeded: "reachable cfg s \<Longrightarrow> seeded cfg s"
  by (induction rule: reachable.induct) (auto intro: seeded_init seeded_step)

lemma reachable_jobs_listed:
  "reachable cfg s \<Longrightarrow> j \<in> allJobs cfg s \<Longrightarrow> url j \<in> set (finalURLs s)"
  using reachable_seeded [of cfg s] by (simp add: seeded_def)

section \<open>No address with an ignored extension is admitted\<close>

lemma examine_Candidate:
  assumes "examine cfg base l = Candidate u"
  shows "u = resolveURL (library cfg) (Some base) l" and "u \<noteq> []" and "\<not> ignoredExt cfg u"
    and "isSameDomain (library cfg) (startURL cfg) u"
  using assms
  by (auto simp: examine_def Let_def ignoredExt_def ignoredExtensions_def
      split: if_splits option.splits)

lemma filtered_init: "filtered cfg (init cfg)"
  by (simp add: filtered_def init_def)

lemma filtered_step:
  assumes "filtered cfg s" and "exec cfg t s = Some s'"
  shows "filtered cfg s'"
  using assms(2)
proof (cases rule: exec_cases)
  case (Admit i j base l ls u)
  with assms(1) examine_Candidate(3) [of cfg base l u] show ?thesis
    by (simp add: filtered_def)
qed (use assms(1) in \<open>simp_all add: filtered_def\<close>)

lemma reachable_filtered: "reachable cfg s \<Longrightarrow> filtered cfg s"
  by (induction rule: reachable.induct) (auto intro: filtered_init filtered_step)

lemma outputs_filtered:
  assumes "reachable cfg s"
  shows "\<forall>u \<in> set (finalURLs s). u = startURL cfg \<or> \<not> ignoredExt cfg u"
    and "\<forall>j \<in> allJobs cfg s. url j = startURL cfg \<or> \<not> ignoredExt cfg (url j)"
proof -
  from reachable_filtered [OF assms] reachable_output_visited [OF assms]
  show a: "\<forall>u \<in> set (finalURLs s). u = startURL cfg \<or> \<not> ignoredExt cfg u"
    by (auto simp: filtered_def)
  from a reachable_jobs_listed [OF assms]
  show "\<forall>j \<in> allJobs cfg s. url j = startURL cfg \<or> \<not> ignoredExt cfg (url j)"
    by blast
qed

section \<open>The history of a worker is accepted by the observer\<close>

lemma observeAll_snoc:
  "observeAll ph (es @ [e]) = (case observeAll ph es of None \<Rightarrow> None | Some ph' \<Rightarrow> observe ph' e)"
  by (induction es arbitrary: ph) (auto split: option.splits)

lemma eventsOf_trace:
  "trace s' = trace s @ [(t, e)] \<Longrightarrow>
   eventsOf k s' = eventsOf k s @ (if t = Worker k then [e] else [])"
  by (simp add: eventsOf_def)

lemma observed_update:
  assumes "observed s" and "trace s' = trace s @ [(Worker i, e)]"
    and "workers s' = (workers s)[i := w]" and "i < length (workers s)"
    and "observe (phaseOf (workers s ! i)) e = Some (phaseOf w)"
  shows "observed s'"
  unfolding observed_def
proof (intro allI impI)
  fix k assume "k < length (workers s')"
  with assms(3) have kl: "k < length (workers s)" by simp
  with assms(1) have ob: "observeAll Outside (eventsOf k s) = Some (phaseOf (workers s ! k))"
    by (simp add: observed_def)
  show "observeAll Outside (eventsOf k s') = Some (phaseOf (workers s' ! k))"
  proof (cases "k = i")
    case True
    with ob assms show ?thesis
      by (simp add: eventsOf_trace [OF assms(2)] observeAll_snoc)
  next
    case False
    with ob assms kl show ?thesis
      by (simp add: eventsOf_trace [OF assms(2)])
  qed
qed

lemma observed_other:
  assumes "observed s" and "trace s' = trace s @ [(t, e)]"
    and "workers s' = workers s" and "\<And>i. t \<noteq> Worker i"
  shows "observed s'"
  using assms by (simp add: observed_def eventsOf_trace [OF assms(2)])

lemma observed_init: "observed (init cfg)"
  by (simp add: observed_def init_def eventsOf_def)

lemma observe_fetchStep:
  "observe Received (Fetch u (fst (fetchStep cfg j))) = Some (phaseOf (snd (fetchStep cfg j)))"
proof (cases cfg j rule: fetchStep_cases)
  case (Early out)
  then show ?thesis by (cases out) simp_all
next
  case (Expand base ls)
  then show ?thesis by simp
qed

lemma observed_step:
  assumes "observed s" and "exec cfg t s = Some s'" and "\<not> crashed s'"
  shows "observed s'"
  using assms(2)
proof (cases rule: exec_cases)
  case Feed
  with assms(1) show ?thesis by (intro observed_other [of s s' t]) auto
next
  case WaitOver
  with assms(1) show ?thesis by (intro observed_other [of s s' t]) auto
next
  case Close
  with assms(1) show ?thesis by (intro observed_other [of s s' t]) auto
next
  case Return
  with assms(1) show ?thesis by (intro observed_other [of s s' t]) auto
next
  case (Recv i j rest)
  with assms(1) show ?thesis by (intro observed_update [of s s' i _ "WGot j"]) auto
next
  case (Exit i)
  with assms(1) show ?thesis by (intro observed_update [of s s' i _ WExit]) auto
next
  case (Fetch i j)
  with assms(1) show ?thesis
    by (intro observed_update [of s s' i _ "snd (fetchStep cfg j)"])
      (auto simp: observe_fetchStep)
next
  case (Skip i j base l ls)
  with assms(1) show ?thesis by (intro observed_update [of s s' i _ "WLoop j base ls"]) auto
next
  case (Seen i j base l ls u)
  with assms(1) show ?thesis by (intro observed_update [of s s' i _ "WLoop j base ls"]) auto
next
  case (Admit i j base l ls u)
  with assms(1) show ?thesis
    by (intro observed_update [of s s' i _ "WAppend j base u ls"]) auto
next
  case (Append i j base u ls)
  with assms(1) show ?thesis by (intro observed_update [of s s' i _ "WAdd j base u ls"]) auto
next
  case (Add i j base u ls)
  with assms(1) show ?thesis by (intro observed_update [of s s' i _ "WSend j base u ls"]) auto
next
  case (Send i j base u ls)
  with assms(1) show ?thesis by (intro observed_update [of s s' i _ "WLoop j base ls"]) auto
next
  case (Done i j)
  with assms(1) show ?thesis by (intro observed_update [of s s' i _ WIdle]) auto
qed (use assms(3) in simp_all)

lemma reachable_observed: "reachable cfg s \<Longrightarrow> observed s"
proof (induction rule: reachable.induct)
  case start
  show ?case by (rule observed_init)
next
  case (step s t s')
  from step(1,2) have "\<not> crashed s'" by (rule reachable_not_crashed)
  with step show ?case by (auto intro: observed_step)
qed

lemma observe_balance_step:
  assumes "observe ph' e = Some ph"
  shows "(if isRecv e then 1 else 0) + (if inJob ph' then 1 else 0) =
         (if e = Done then 1 else 0) + (if inJob ph then (1::nat) else 0)"
  using assms by (auto elim!: observe.elims)

lemma observe_balance:
  "observeAll Outside es = Some ph \<Longrightarrow>
   length (filter isRecv es) =
     length (filter (\<lambda>e. e = Done) es) + (if inJob ph then 1 else 0)"
proof (induction es arbitrary: ph rule: rev_induct)
  case Nil
  then show ?case by simp
next
  case (snoc e es)
  from snoc.prems obtain ph' where a: "observeAll Outside es = Some ph'"
    and o: "observe ph' e = Some ph"
    by (auto simp: observeAll_snoc split: option.splits)
  from snoc.IH [OF a] observe_balance_step [OF o] show ?case
    by (simp split: if_splits)
qed

section \<open>Jobs and admitted addresses stay within the depth\<close>

lemma within_Suc_subset: "within cfg n \<subseteq> within cfg (Suc n)"
  by auto

lemma within_mono: "n \<le> m \<Longrightarrow> within cfg n \<subseteq> within cfg m"
proof (induction m)
  case 0
  then show ?case by simp
next
  case (Suc m)
  show ?case
  proof (cases "n = Suc m")
    case True
    then show ?thesis by simp
  next
    case False
    with Suc have "within cfg n \<subseteq> within cfg m" by simp
    with within_Suc_subset [of cfg m] show ?thesis by blast
  qed
qed

lemma start_within: "startURL cfg \<in> within cfg n"
  using within_mono [of 0 n cfg] by auto

lemma children_within: "u \<in> within cfg n \<Longrightarrow> v \<in> children cfg u \<Longrightarrow> v \<in> within cfg (Suc n)"
  by auto

lemma candidates_mem:
  "l \<in> set ls \<Longrightarrow> examine cfg base l = Candidate u \<Longrightarrow> u \<in> set (candidates cfg base ls)"
  by (force simp: candidates_def)

lemma fromPage_tl: "fromPage cfg j base (l # ls) \<Longrightarrow> fromPage cfg j base ls"
  by (auto simp: fromPage_def)

lemma fromPage_child:
  "fromPage cfg j base (l # ls) \<Longrightarrow> examine cfg base l = Candidate u \<Longrightarrow>
   u \<in> children cfg (url j)"
  by (auto simp: fromPage_def children_def intro: candidates_mem)

lemma expanding_fetchStep: "expanding cfg (snd (fetchStep cfg j))"
  by (cases cfg j rule: fetchStep_cases) (auto simp: fromPage_def)

lemma in_update: "w \<in> set (ws[i := w']) \<Longrightarrow> w = w' \<or> w \<in> set ws"
  using set_update_subset_insert [of ws i w'] by auto

lemma bounded_init: "bounded cfg (init cfg)"
  by (auto simp: bounded_def init_def allJobs_def start_within)

lemma bounded_step:
  assumes "bounded cfg s" and "exec cfg t s = Some s'"
  shows "bounded cfg s'"
proof -
  from assms(1) have js: "\<And>j. j \<in> allJobs cfg s \<Longrightarrow> 0 \<le> depth j \<and> url j \<in> within cfg (nat (depth j))"
    and ws: "\<forall>w \<in> set (workers s). expanding cfg w"
    and vs: "visited s \<subseteq> within cfg (nat (maxDepth cfg - 1))"
    by (auto simp: bounded_def)
  have at: "expanding cfg (workers s ! i)" if "i < length (workers s)" for i
    using ws that by simp
  have cur: "0 \<le> depth j \<and> url j \<in> within cfg (nat (depth j))"
    if "i < length (workers s)" "j \<in> set (current (workers s ! i))" for i j
    using js current_in_allJobs [OF that] by blast
  have js': "0 \<le> depth j' \<and> url j' \<in> within cfg (nat (depth j'))" if "j' \<in> allJobs cfg s'" for j'
    using allJobs_exec [OF assms(2) that]
  proof
    assume "j' \<in> allJobs cfg s"
    with js show ?thesis by blast
  next
    assume "\<exists>i j base u ls. t = Worker i \<and> i < length (workers s) \<and>
              workers s ! i = WAppend j base u ls \<and> j' = \<lparr>url = u, depth = depth j + 1\<rparr>"
    then obtain i j base u ls where il: "i < length (workers s)"
      and w: "workers s ! i = WAppend j base u ls" and j': "j' = \<lparr>url = u, depth = depth j + 1\<rparr>"
      by blast
    from at [OF il] w have ch: "u \<in> children cfg (url j)" by simp
    from cur [OF il, of j] w have d: "0 \<le> depth j" and pg: "url j \<in> within cfg (nat (depth j))"
      by simp_all
    from d have "nat (depth j + 1) = Suc (nat (depth j))" by simp
    with children_within [OF pg ch] d j' show ?thesis by simp
  qed
  have ws': "\<forall>w \<in> set (workers s'). expanding cfg w"
    using assms(2)
  proof (cases rule: exec_cases)
    case (Recv i j rest)
    with ws show ?thesis by (auto dest!: in_update)
  next
    case (Exit i)
    with ws show ?thesis by (auto dest!: in_update)
  next
    case (Fetch i j)
    with ws show ?thesis by (auto dest!: in_update simp: expanding_fetchStep)
  next
    case (Skip i j base l ls)
    with ws at [of i] show ?thesis by (auto dest!: in_update simp: fromPage_tl)
  next
    case (Seen i j base l ls u)
    with ws at [of i] show ?thesis by (auto dest!: in_update simp: fromPage_tl)
  next
    case (Admit i j base l ls u)
    with ws at [of i] show ?thesis by (auto dest!: in_update simp: fromPage_tl fromPage_child)
  next
    case (Append i j base u ls)
    with ws at [of i] show ?thesis by (auto dest!: in_update)
  next
    case (Add i j base u ls)
    with ws at [of i] show ?thesis by (auto dest!: in_update)
  next
    case (Send i j base u ls)
    with ws at [of i] show ?thesis by (auto dest!: in_update)
  next
    case (Done i j)
    with ws show ?thesis by (auto dest!: in_update)
  qed (use ws in simp_all)
  have vs': "visited s' \<subseteq> within cfg (nat (maxDepth cfg - 1))"
    using assms(2)
  proof (cases rule: exec_cases)
    case (Admit i j base l ls u)
    from at [of i] Admit have fp: "fromPage cfg j base (l # ls)" by simp
    from fp Admit have ch: "u \<in> children cfg (url j)" by (auto intro: fromPage_child)
    from cur [of i j] Admit have d: "0 \<le> depth j" and pg: "url j \<in> within cfg (nat (depth j))"
      by simp_all
    from fp have "depth j + 1 < maxDepth cfg" by (simp add: fromPage_def)
    with d have "Suc (nat (depth j)) \<le> nat (maxDepth cfg - 1)" by simp
    with children_within [OF pg ch] within_mono have "u \<in> within cfg (nat (maxDepth cfg - 1))"
      by blast
    with vs Admit show ?thesis by simp
  qed (use vs in simp_all)
  from js' ws' vs' show ?thesis by (auto simp: bounded_def)
qed

lemma reachable_bounded: "reachable cfg s \<Longrightarrow> bounded cfg s"
  by (induction rule: reachable.induct) (auto intro: bounded_init bounded_step)

lemma output_within:
  "reachable cfg s \<Longrightarrow> set (finalURLs s) \<subseteq> within cfg (nat (maxDepth cfg - 1))"
  using reachable_output_visited [of cfg s] reachable_bounded [of cfg s]
  by (auto simp: bounded_def)

lemma within_unparsable:
  assumes "urlParse (library cfg) (startURL cfg) = None"
  shows "within cfg n = {startURL cfg}"
proof (induction n)
  case 0
  show ?case by simp
next
  case (Suc n)
  from assms have "children cfg (startURL cfg) = {}"
    by (simp add: children_def getBaseURL_def split: sum.splits)
  with Suc show ?case by simp
qed

text \<open>
  The documentation of the flag \<open>depth\<close> says that a depth of 1 includes the start
  address and the pages linked directly from it. The crawl engine lists the start
  address alone.
\<close>

lemma depth_one_lists_start_only:
  assumes "reachable cfg s" and "maxDepth cfg \<le> 1"
  shows "finalURLs s = [startURL cfg]"
proof -
  from assms(2) have "nat (maxDepth cfg - 1) = 0" by simp
  with output_within [OF assms(1)] have "set (finalURLs s) \<subseteq> {startURL cfg}" by simp
  with reachable_distinct [OF assms(1)] reachable_seeded [OF assms(1)] show ?thesis
    by (simp add: seeded_def singleton_list)
qed

section \<open>Runs\<close>

lemma run_reachable: "reachable cfg s \<Longrightarrow> run cfg sched s = Some s' \<Longrightarrow> reachable cfg s'"
proof (induction sched arbitrary: s)
  case Nil
  then show ?case by simp
next
  case (Cons t ts)
  from Cons.prems(2) obtain s1 where e: "exec cfg t s = Some s1" and r: "run cfg ts s1 = Some s'"
    by (auto split: option.splits)
  from Cons.prems(1) e have "reachable cfg s1" by (rule reachable.step)
  from Cons.IH [OF this r] show ?case .
qed

lemma reaches_reachable: "reachable cfg s \<Longrightarrow> reaches cfg s s' \<Longrightarrow> reachable cfg s'"
proof -
  assume r: "reachable cfg s" and "reaches cfg s s'"
  from this(2) show ?thesis
    by (induction rule: reaches.induct) (auto intro: r reachable.step)
qed

lemma reaches_output: "reaches cfg s s' \<Longrightarrow> set (finalURLs s) \<subseteq> set (finalURLs s')"
proof (induction rule: reaches.induct)
  case here
  show ?case by simp
next
  case (after s1 t s2)
  from finalURLs_exec [OF after(2)] have "set (finalURLs s1) \<subseteq> set (finalURLs s2)" by auto
  with after.IH show ?case by blast
qed

lemma reaches_length: "reaches cfg s s' \<Longrightarrow> length (workers s') = length (workers s)"
  by (induction rule: reaches.induct) (auto simp: exec_length)

lemma chain_result:
  "result (chainCfg 1) chainSchedule = Some ([''http://h/a'', ''http://h/b''], None)"
  by code_simp

lemma chain_within: "within (chainCfg n) (Suc 0) = {''http://h/a'', ''http://h/b''}"
  by code_simp

lemma style_result:
  "result styleCfg styleSchedule = Some ([''http://h/'', ''http://h/about''], None)"
  by code_simp

lemma style_facts:
  "startURL styleCfg = ''http://h/'' \<and>
   getAndParseLinks (library styleCfg) ''http://h/'' = Inr [anchor ''style.css'', anchor ''/about''] \<and>
   resolveURL (library styleCfg) (getBaseURL (library styleCfg) ''http://h/'') (anchor ''style.css'') =
     ''http://h/style.css'' \<and>
   resolveURL (library styleCfg) (getBaseURL (library styleCfg) ''http://h/'') (anchor ''/about'') =
     ''http://h/about'' \<and>
   ignoredExt styleCfg ''http://h/style.css'' \<and> \<not> ignoredExt styleCfg ''http://h/about''"
  by code_simp

lemma stateAfter_reachable: "reachable cfg (stateAfter cfg sched)"
  by (auto simp: stateAfter_def split: option.splits intro: run_reachable reachable.start)

lemma run_reaches: "run cfg sched s = Some s' \<Longrightarrow> reaches cfg s s'"
proof (induction sched arbitrary: s' rule: rev_induct)
  case Nil
  then show ?case by (auto intro: reaches.here)
next
  case (snoc t ts)
  have app: "run cfg (xs @ ys) s0 = (case run cfg xs s0 of None \<Rightarrow> None | Some s1 \<Rightarrow> run cfg ys s1)"
    for xs ys s0
    by (induction xs arbitrary: s0) (auto split: option.splits)
  from snoc.prems obtain s1 where a: "run cfg ts s = Some s1" and e: "exec cfg t s1 = Some s'"
    by (auto simp: app split: option.splits)
  from snoc.IH [OF a] e show ?case by (rule reaches.after)
qed

lemma error_continues: "run errorCfg errorRest errorMid = Some errorEnd"
  by code_simp

lemma chainEnd_facts:
  "returned chainEnd = Some ([''http://h/a'', ''http://h/b''], None) \<and>
   workers chainEnd = [WExit] \<and>
   eventsOf 0 chainEnd =
     [Recv \<lparr>url = ''http://h/a'', depth = 0\<rparr>,
      Fetch ''http://h/a'' (Expand [anchor ''/b'']),
      LoadOrStore ''http://h/b'' False, Append ''http://h/b'', Add,
      Send \<lparr>url = ''http://h/b'', depth = 1\<rparr>, Done,
      Recv \<lparr>url = ''http://h/b'', depth = 1\<rparr>,
      Fetch ''http://h/b'' DepthCeiling, Done, Exit]"
  by code_simp

lemma errorMid_facts:
  "workers errorMid = [WGot \<lparr>url = ''http://h/e'', depth = 1\<rparr>] \<and>
   finalURLs errorMid = [''http://h/'', ''http://h/e''] \<and>
   map_option StatusCode (httpGet (library errorCfg) ''http://h/e'') = Some 500"
  by code_simp

lemma errorEnd_facts:
  "returned errorEnd = Some ([''http://h/'', ''http://h/e''], None) \<and>
   finalURLs errorEnd = [''http://h/'', ''http://h/e''] \<and>
   visited errorEnd = {''http://h/'', ''http://h/e''} \<and> tasks errorEnd = 0"
  by code_simp

lemma styleEnd_facts:
  "returned styleEnd = Some ([''http://h/'', ''http://h/about''], None) \<and>
   finalURLs styleEnd = [''http://h/'', ''http://h/about''] \<and>
   visited styleEnd = {''http://h/'', ''http://h/about''}"
  by code_simp

lemma badEnd_facts:
  "returned badEnd = Some (['':bad''], None) \<and>
   urlParse (library badStartCfg) (startURL badStartCfg) = None"
  by code_simp

section \<open>The order of submissions and completion\<close>

text \<open>
  C1. In every state of a crawl the operations a worker has performed so far are accepted
  by the observer, which ends in the phase where the worker stands: every increment is
  followed by its send, both inside a job and before the job's \<^verbatim>\<open>tasks.Done()\<close>; the
  three early paths lead to \<^verbatim>\<open>tasks.Done()\<close> and to nothing else. The worker has
  called \<^verbatim>\<open>tasks.Done()\<close> once for every job it has received, the job it is
  processing apart; and where it stands before that call, on an early path or at the
  end of the loop, the call goes through and takes one from the counter.
\<close>

theorem worker_order:
  assumes "reachable cfg s" and "i < length (workers s)"
  shows "observeAll Outside (eventsOf i s) = Some (phaseOf (workers s ! i)) \<and>
         length (filter isRecv (eventsOf i s)) =
           length (filter (\<lambda>e. e = Done) (eventsOf i s)) +
           (if inJob (phaseOf (workers s ! i)) then 1 else 0) \<and>
         (\<forall>j base. workers s ! i = WDone j \<or> workers s ! i = WLoop j base [] \<longrightarrow>
            (\<exists>s'. exec cfg (Worker i) s = Some s' \<and> tasks s' = tasks s - 1 \<and>
                  workers s' ! i = WIdle \<and> trace s' = trace s @ [(Worker i, Done)]))"
proof (intro conjI allI impI)
  from reachable_observed [OF assms(1)] assms(2)
  show o: "observeAll Outside (eventsOf i s) = Some (phaseOf (workers s ! i))"
    by (simp add: observed_def)
  from observe_balance [OF o]
  show "length (filter isRecv (eventsOf i s)) =
          length (filter (\<lambda>e. e = Done) (eventsOf i s)) +
          (if inJob (phaseOf (workers s ! i)) then 1 else 0)" .
next
  fix j base assume "workers s ! i = WDone j \<or> workers s ! i = WLoop j base []"
  from done_enabled [OF assms this]
  show "\<exists>s'. exec cfg (Worker i) s = Some s' \<and> tasks s' = tasks s - 1 \<and>
              workers s' ! i = WIdle \<and> trace s' = trace s @ [(Worker i, Done)]"
    by blast
qed

theorem worker_order_witness:
  "reachable (chainCfg 1) chainEnd \<and> 0 < length (workers chainEnd) \<and>
   eventsOf 0 chainEnd =
     [Recv \<lparr>url = ''http://h/a'', depth = 0\<rparr>,
      Fetch ''http://h/a'' (Expand [anchor ''/b'']),
      LoadOrStore ''http://h/b'' False, Append ''http://h/b'', Add,
      Send \<lparr>url = ''http://h/b'', depth = 1\<rparr>, Done,
      Recv \<lparr>url = ''http://h/b'', depth = 1\<rparr>,
      Fetch ''http://h/b'' DepthCeiling, Done, Exit] \<and>
   observeAll Outside (eventsOf 0 chainEnd) = Some Finished \<and>
   length (filter isRecv (eventsOf 0 chainEnd)) = 2 \<and>
   length (filter (\<lambda>e. e = Done) (eventsOf 0 chainEnd)) = 2"
proof -
  have r: "reachable (chainCfg 1) chainEnd"
    unfolding chainEnd_def by (rule stateAfter_reachable)
  from chainEnd_facts have l: "0 < length (workers chainEnd)" by simp
  from worker_order [OF r l] chainEnd_facts r show ?thesis by simp
qed

section \<open>The depth ceiling\<close>

lemma chain_all_runs:
  assumes "reachable (chainCfg n) s"
  shows "set (finalURLs s) \<subseteq> {''http://h/a'', ''http://h/b''}"
proof -
  have "nat (maxDepth (chainCfg n) - 1) = Suc 0" by (simp add: chainCfg_def)
  with output_within [OF assms] have "set (finalURLs s) \<subseteq> within (chainCfg n) (Suc 0)"
    by (simp only:)
  then show ?thesis unfolding chain_within .
qed

text \<open>
  C2. The crawl of the chain \<open>a \<rightarrow> b \<rightarrow> c \<rightarrow> d\<close> with \<open>maxDepth = 2\<close> returns \<open>a\<close> and
  \<open>b\<close> only: the page \<open>b\<close>, at depth 1, is fetched, and then the test
  \<^verbatim>\<open>j.depth+1 >= maxDepth\<close> ends its job before any of its links is looked at
  (\<open>ceiling_drops_links\<close>), so \<open>c\<close> is never admitted. This holds for the run of one
  worker given here and, whatever the number of workers and the schedule, in every state
  of the crawl; in general a crawl admits only addresses within \<open>maxDepth - 1\<close> links of
  the start (\<open>output_within\<close>).
\<close>

theorem chain_output:
  "result (chainCfg 1) chainSchedule = Some ([''http://h/a'', ''http://h/b''], None) \<and>
   (\<forall>n s. reachable (chainCfg n) s \<longrightarrow> ''http://h/c'' \<notin> set (finalURLs s))"
proof (intro conjI allI impI)
  show "result (chainCfg 1) chainSchedule = Some ([''http://h/a'', ''http://h/b''], None)"
    by (rule chain_result)
next
  fix n s assume "reachable (chainCfg n) s"
  from chain_all_runs [OF this] show "''http://h/c'' \<notin> set (finalURLs s)" by auto
qed

theorem chain_output_witness:
  "reachable (chainCfg 1) chainEnd \<and>
   returned chainEnd = Some ([''http://h/a'', ''http://h/b''], None) \<and>
   ''http://h/c'' \<notin> set (finalURLs chainEnd)"
proof -
  have r: "reachable (chainCfg 1) chainEnd"
    unfolding chainEnd_def by (rule stateAfter_reachable)
  with chain_output chainEnd_facts show ?thesis by blast
qed

text \<open>
  The first revision on the same chain: whatever key an iteration takes, the loop ends
  with \<open>a\<close>, \<open>b\<close> and \<open>c\<close> in the output.
\<close>

lemma chain0_a: "iterate0 (chainCfg n) ''http://h/a'' (init0 (chainCfg n)) = Some chainAfterA"
  by code_simp

lemma chain0_b: "iterate0 (chainCfg n) ''http://h/b'' chainAfterA = Some chainAfterB"
  by code_simp

lemma chain0_states:
  "reachable0 (chainCfg n) st \<Longrightarrow> st = init0 (chainCfg n) \<or> st = chainAfterA \<or> st = chainAfterB"
proof (induction rule: reachable0.induct)
  case start0
  show ?case by simp
next
  case (step0 st u st')
  from step0.IH show ?case
  proof (elim disjE)
    assume st: "st = init0 (chainCfg n)"
    with step0(2) have "u = ''http://h/a''"
      by (auto simp: iterate0_def init0_def chainCfg_def split: option.splits if_splits)
    with step0(2) st chain0_a [of n] show ?thesis by simp
  next
    assume st: "st = chainAfterA"
    with step0(2) have "u = ''http://h/b''"
      by (auto simp: iterate0_def chainAfterA_def split: option.splits if_splits)
    with step0(2) st chain0_b [of n] show ?thesis by simp
  next
    assume st: "st = chainAfterB"
    with step0(2) show ?thesis by (simp add: iterate0_def chainAfterB_def)
  qed
qed

lemma chain0_output:
  "reachable0 (chainCfg n) chainAfterB \<and>
   (\<forall>st. reachable0 (chainCfg n) st \<longrightarrow> queue0 st = [] \<longrightarrow>
      finalURLs0 st = [''http://h/a'', ''http://h/b'', ''http://h/c''])"
proof (intro conjI allI impI)
  from reachable0.start0 [of "chainCfg n"] chain0_a [of n] have "reachable0 (chainCfg n) chainAfterA"
    by (rule reachable0.step0)
  from this chain0_b [of n] show "reachable0 (chainCfg n) chainAfterB"
    by (rule reachable0.step0)
next
  fix st assume "reachable0 (chainCfg n) st" and q: "queue0 st = []"
  from chain0_states [OF this(1)] q show "finalURLs0 st = [''http://h/a'', ''http://h/b'', ''http://h/c'']"
    by (auto simp: init0_def chainAfterA_def chainAfterB_def)
qed

section \<open>No address is listed twice\<close>

text \<open>
  C3. In every state of a crawl the output has no address twice, and so has the list that
  is returned: every address of the visited set is either once in the output or held
  once by the worker that admitted it and is about to append it. A step adds an address
  to the visited set only when it was not there, by the one operation \<^verbatim>\<open>LoadOrStore\<close>
  that answers "not loaded".
\<close>

theorem no_duplicates:
  assumes "reachable cfg s"
  shows "distinct (finalURLs s) \<and>
         mset_set (visited s) = mset (finalURLs s) + sum_list (map pending (workers s)) \<and>
         (\<forall>r. returned s = Some r \<longrightarrow> distinct (fst r)) \<and>
         (\<forall>t s'. exec cfg t s = Some s' \<longrightarrow>
            visited s' = visited s \<or>
            (\<exists>u. u \<notin> visited s \<and> visited s' = insert u (visited s) \<and>
                 last (trace s') = (t, LoadOrStore u False)))"
proof (intro conjI allI impI)
  show d: "distinct (finalURLs s)" by (rule reachable_distinct [OF assms])
  show "mset_set (visited s) = mset (finalURLs s) + sum_list (map pending (workers s))"
    using reachable_admitted [OF assms] by (simp add: admitted_def)
  fix r assume "returned s = Some r"
  with reachable_seeded [OF assms] have "fst r = finalURLs s" by (auto simp: seeded_def)
  with d show "distinct (fst r)" by simp
next
  fix t s' assume "exec cfg t s = Some s'"
  then show "visited s' = visited s \<or>
         (\<exists>u. u \<notin> visited s \<and> visited s' = insert u (visited s) \<and>
              last (trace s') = (t, LoadOrStore u False))"
    by (rule admission_step)
qed

theorem no_duplicates_witness:
  "reachable styleCfg styleEnd \<and>
   returned styleEnd = Some ([''http://h/'', ''http://h/about''], None) \<and>
   distinct (finalURLs styleEnd) \<and>
   mset_set (visited styleEnd) =
     mset (finalURLs styleEnd) + sum_list (map pending (workers styleEnd))"
proof -
  have r: "reachable styleCfg styleEnd"
    unfolding styleEnd_def by (rule stateAfter_reachable)
  from no_duplicates [OF r] styleEnd_facts r show ?thesis by simp
qed

section \<open>A crawl that blocks for ever\<close>

lemma deadlocked_exec:
  assumes "deadlocked cfg s"
  shows "exec cfg t s = None"
proof (cases t)
  case (Worker i)
  show ?thesis
  proof (cases "i < length (workers s)")
    case True
    then have "Worker i \<in> set (threads s)" by (simp add: threads_def)
    with assms Worker show ?thesis by (auto simp: deadlocked_def list_all_iff)
  next
    case False
    with Worker show ?thesis by (simp add: not_in_range)
  qed
qed (use assms in \<open>auto simp: deadlocked_def threads_def\<close>)

lemma deadlocked_forever:
  assumes "deadlocked cfg s" and "reaches cfg s s'"
  shows "s' = s"
  using assms(2)
proof (induction rule: reaches.induct)
  case here
  show ?case ..
next
  case (after s1 t s2)
  with deadlocked_exec [OF assms(1), of t] show ?case by simp
qed

lemma closing_init: "closing (init cfg)"
  by (simp add: closing_def init_def)

lemma closing_step:
  assumes "closing s" and "exec cfg t s = Some s'"
  shows "closing s'"
  using assms(2)
proof (cases rule: exec_cases)
  case (Fetch i j)
  have "snd (fetchStep cfg j) \<noteq> WExit"
    by (cases cfg j rule: fetchStep_cases) simp_all
  with Fetch assms(1) show ?thesis by (auto simp: closing_def dest!: in_update)
qed (use assms(1) in \<open>auto simp: closing_def dest!: in_update\<close>)

lemma reachable_closing: "reachable cfg s \<Longrightarrow> closing s"
  by (induction rule: reachable.induct) (auto intro: closing_init closing_step)

lemma busy_zero: "sum_list (map busy ws) = 0 \<Longrightarrow> w \<in> set ws \<Longrightarrow> busy w = 0"
proof (induction ws)
  case Nil
  then show ?case by simp
next
  case (Cons a ws)
  from busy_nonneg [of a] busy_sum_nonneg [of ws] Cons.prems(1)
  have "busy a = 0" and "sum_list (map busy ws) = 0" by simp_all
  with Cons show ?case by auto
qed

lemma busy_all_zero: "(\<And>w. w \<in> set ws \<Longrightarrow> busy w = 0) \<Longrightarrow> sum_list (map busy ws) = 0"
  by (induction ws) auto

lemma blocked_worker:
  assumes "workerStep cfg i w s = None" and "\<not> closed s"
  shows "(w = WIdle \<and> jobs s = []) \<or> (sending w \<and> \<not> length (jobs s) < capacity cfg) \<or> w = WExit"
proof (cases w)
  case (WLoop j base ls)
  with assms show ?thesis
    by (cases ls; cases "examine cfg base (hd ls)") (auto simp: doneStep_def split: if_splits)
qed (use assms in \<open>auto simp: doneStep_def split: list.splits if_splits\<close>)

lemma deadlocked_sending:
  assumes "reachable cfg s" and "deadlocked cfg s"
  shows "allBlockedSending cfg s"
proof -
  from assms(2) have rn: "returned s = None" and nc: "\<not> crashed s"
    by (auto simp: deadlocked_def)
  have no: "exec cfg t s = None" for t
    by (rule deadlocked_exec [OF assms(2)])
  have ts: "threadStep cfg t s = None" for t
    using no [of t] nc by (cases "threadStep cfg t s") (auto simp: exec_def)
  from assms(1) nc have nw: "0 \<le> numWorkers cfg"
    by (induction rule: reachable.induct) (auto simp: init_def exec_def split: if_splits)
  from reachable_counted [OF assms(1) nw] have tk: "tasks s = outstanding s"
    and cw: "closer s \<noteq> CWait \<longrightarrow> tasks s = 0" and cd: "closed s \<longrightarrow> closer s = CDone"
    by (auto simp: counted_def)
  from reachable_closing [OF assms(1)] have dc: "closer s = CDone \<longrightarrow> closed s"
    and ex: "WExit \<in> set (workers s) \<longrightarrow> closed s"
    by (auto simp: closing_def)
  from ts [of Main] rn have notall: "\<not> list_all (\<lambda>w. w = WExit) (workers s)"
    by (auto simp: threadStep_def split: if_splits)
  then have ne: "workers s \<noteq> []" by auto
  then have "0 < length (workers s)" by simp
  with reachable_length [OF assms(1)] have cap: "0 < capacity cfg" by (simp add: capacity_def)
  have wk: "workerStep cfg i (workers s ! i) s = None" if "i < length (workers s)" for i
    using ts [of "Worker i"] that by (simp add: threadStep_def)
  have ncl: "\<not> closed s"
  proof
    assume cl: "closed s"
    with cd cw have "tasks s = 0" by simp
    define n where "n = int (length (jobs s))"
    have n0: "0 \<le> n" by (simp add: n_def)
    from tk \<open>tasks s = 0\<close>
    have "(if feeder s then 1 else 0) + n + sum_list (map busy (workers s)) = 0"
      by (simp add: outstanding_def n_def)
    with n0 busy_sum_nonneg [of "workers s"]
    have "n = 0" and z: "sum_list (map busy (workers s)) = 0"
      by (auto split: if_splits)
    then have j: "jobs s = []" by (simp add: n_def)
    have "w = WExit" if "w \<in> set (workers s)" for w
    proof -
      from that obtain i where i: "i < length (workers s)" and w: "workers s ! i = w"
        by (auto simp: in_set_conv_nth)
      from busy_zero [OF z that] have "w = WIdle \<or> w = WExit" by (cases w) auto
      with wk [OF i] w cl j show ?thesis by auto
    qed
    with notall show False by (auto simp: list_all_iff)
  qed
  with dc have "closer s \<noteq> CDone" by auto
  with ts [of Closer] have t0: "tasks s \<noteq> 0"
    by (auto simp: threadStep_def split: cstate.splits if_splits)
  have each: "(w = WIdle \<and> jobs s = []) \<or> (sending w \<and> \<not> length (jobs s) < capacity cfg)"
    if "w \<in> set (workers s)" for w
  proof -
    from that obtain i where i: "i < length (workers s)" and w: "workers s ! i = w"
      by (auto simp: in_set_conv_nth)
    from blocked_worker [OF wk [OF i] ncl] w that ex ncl show ?thesis by auto
  qed
  have noidle: "w \<noteq> WIdle" if "w \<in> set (workers s)" for w
  proof
    assume "w = WIdle"
    with each [OF that] have j: "jobs s = []" by auto
    with ts [of Feeder] ncl cap have nf: "\<not> feeder s"
      by (auto simp: threadStep_def split: if_splits)
    have "busy v = 0" if "v \<in> set (workers s)" for v
      using each [OF that] j cap by auto
    then have "sum_list (map busy (workers s)) = 0" by (rule busy_all_zero)
    with tk t0 nf j show False by (simp add: outstanding_def)
  qed
  have "sending w \<and> \<not> length (jobs s) < capacity cfg" if "w \<in> set (workers s)" for w
    using each [OF that] noidle [OF that] by blast
  with ne ncl show ?thesis
    by (cases "workers s") (auto simp: allBlockedSending_def list_all_iff)
qed


lemma sending_deadlocked:
  assumes "reachable cfg s" and "allBlockedSending cfg s"
  shows "deadlocked cfg s"
proof -
  from assms(2) have ne: "workers s \<noteq> []" and snd: "\<And>w. w \<in> set (workers s) \<Longrightarrow> sending w"
    and ncl: "\<not> closed s" and full: "\<not> length (jobs s) < capacity cfg"
    by (auto simp: allBlockedSending_def list_all_iff)
  from ne have l: "0 < length (workers s)" by simp
  with reachable_length [OF assms(1)] have nw: "0 \<le> numWorkers cfg" by simp
  from reachable_counted [OF assms(1) nw] have nc: "\<not> crashed s" and tk: "tasks s = outstanding s"
    and cw: "closer s \<noteq> CWait \<longrightarrow> tasks s = 0"
    by (auto simp: counted_def)
  from l have w0: "workers s ! 0 \<in> set (workers s)" by simp
  from snd [OF w0] have "busy (workers s ! 0) = 2" by (cases "workers s ! 0") auto
  with busy_le_sum [OF l] tk have t2: "2 \<le> tasks s" by (simp add: outstanding_def)
  with cw have cwt: "closer s = CWait" by auto
  from snd [OF w0] have "workers s ! 0 \<noteq> WExit" by auto
  with w0 have notall: "\<not> (\<forall>w \<in> set (workers s). w = WExit)" by blast
  with reachable_seeded [OF assms(1)] have rn: "returned s = None"
    by (cases "returned s") (auto simp: seeded_def)
  have "exec cfg t s = None" if "t \<in> set (threads s)" for t
  proof (cases t)
    case (Worker i)
    with that have i: "i < length (workers s)" by (auto simp: threads_def)
    from i have "workers s ! i \<in> set (workers s)" by simp
    from snd [OF this] obtain j base u ls where "workers s ! i = WSend j base u ls"
      by (cases "workers s ! i") auto
    with Worker i ncl full show ?thesis by (simp add: exec_def threadStep_def)
  next
    case Feeder
    with ncl full show ?thesis by (simp add: exec_def threadStep_def)
  next
    case Closer
    with cwt t2 show ?thesis by (simp add: exec_def threadStep_def)
  next
    case Main
    with notall show ?thesis by (auto simp: exec_def threadStep_def list_all_iff)
  qed
  with rn nc show ?thesis by (simp add: deadlocked_def list_all_iff)
qed

text \<open>
  A crawl is stuck exactly when every worker is blocked in a send on the full channel.
\<close>

lemma deadlock_iff_all_sending:
  "reachable cfg s \<Longrightarrow> deadlocked cfg s \<longleftrightarrow> allBlockedSending cfg s"
  by (auto intro: deadlocked_sending sending_deadlocked)

text \<open>
  C4. One worker and a start page with two new links of the same host: the worker sends
  the job of the first link, which fills the buffer, and blocks in the send of the
  second, with nobody left to receive. No goroutine can take a step, the function has
  not returned, and it never will (\<open>deadlocked_exec\<close>, \<open>deadlocked_forever\<close>). This is
  the only way for a crawl to be stuck (\<open>deadlock_iff_all_sending\<close>).
\<close>

theorem fork_deadlock:
  "stuck forkCfg forkSchedule \<and>
   outputOf forkCfg forkSchedule = Some [''http://h/'', ''http://h/x'', ''http://h/y''] \<and>
   result forkCfg forkSchedule = None"
  by code_simp

section \<open>What the crawl returns\<close>

text \<open>
  C5, as amended. Whatever \<open>buildSitemap\<close> returns is the list \<open>finalURLs\<close>, headed by
  the start address, with a \<open>nil\<close> error; when the start address does not parse, the
  list is the start address alone.
\<close>

theorem never_an_error:
  assumes "reachable cfg s" and "returned s = Some r"
  shows "snd r = None \<and> fst r = finalURLs s \<and> fst r \<noteq> [] \<and> hd (fst r) = startURL cfg \<and>
         (urlParse (library cfg) (startURL cfg) = None \<longrightarrow> fst r = [startURL cfg])"
proof -
  from reachable_seeded [OF assms(1)] assms(2)
  have r: "r = (finalURLs s, None)" and ne: "finalURLs s \<noteq> []"
    and hd: "hd (finalURLs s) = startURL cfg"
    by (auto simp: seeded_def)
  have "finalURLs s = [startURL cfg]" if "urlParse (library cfg) (startURL cfg) = None"
    using output_within [OF assms(1)] reachable_distinct [OF assms(1)] ne
    by (simp add: within_unparsable [OF that] singleton_list)
  with r ne hd show ?thesis by simp
qed

text \<open>
  C5 as stated fails: a start address that does not parse is crawled like any other, and
  the function returns it with a \<open>nil\<close> error.
\<close>

theorem bad_start_succeeds:
  "urlParse (library badStartCfg) (startURL badStartCfg) = None \<and>
   result badStartCfg badSchedule = Some ([startURL badStartCfg], None)"
  by code_simp

theorem never_an_error_witness:
  "reachable badStartCfg badEnd \<and> returned badEnd = Some (['':bad''], None) \<and>
   urlParse (library badStartCfg) (startURL badStartCfg) = None \<and>
   finalURLs badEnd = [startURL badStartCfg]"
proof -
  have r: "reachable badStartCfg badEnd"
    unfolding badEnd_def by (rule stateAfter_reachable)
  from badEnd_facts have "returned badEnd = Some (['':bad''], None)" by simp
  from never_an_error [OF r this] badEnd_facts r show ?thesis by auto
qed

section \<open>The domain filter\<close>






lemma equalFold_example:
  "equalFold runes ''Example.COM:8080'' ''eXample.com:8080'' \<and>
   \<not> equalFold runes ''example.com'' ''example.org'' \<and>
   \<not> equalFold runes ''example.com'' ''example.co''"
  by code_simp

lemma caseless_not_equality:
  "caseless ''Example.COM'' ''example.com'' \<and> ''Example.COM'' \<noteq> ''example.com''"
  by code_simp

text \<open>Beyond ASCII the answer is the one of the comparison of runes, on the remainders.\<close>

lemma equalFold_beyond_ascii:
  assumes "ascii p" and "128 \<le> (of_char c :: nat) \<or> 128 \<le> (of_char d :: nat)"
  shows "equalFold runes (p @ c # s) (p @ d # t) = runes (c # s) (d # t)"
  using assms by (induction p) (auto simp: ascii_def foldByte_def Let_def)

lemma isSameDomain_unparsable:
  "urlParse L startURLStr = None \<or> urlParse L targetURLStr = None \<Longrightarrow>
   \<not> isSameDomain L startURLStr targetURLStr"
  by (auto simp: isSameDomain_def split: option.splits)

text \<open>The first revision compared the hosts byte for byte.\<close>

lemma first_revision_case_sensitive:
  "isSameDomain (miniLib [] []) ''http://Example.com/'' ''http://example.com/a'' \<and>
   \<not> isSameDomain0 (miniLib [] []) ''http://Example.com/'' ''http://example.com/a''"
  by code_simp



section \<open>The resolver\<close>

lemma toLower_append: "toLower (a @ b) = toLower a @ toLower b"
  by (simp add: toLower_def)

lemma prefix_toLower: "prefix p h \<Longrightarrow> prefix (toLower p) (toLower h)"
  by (auto simp: prefix_def toLower_append)

lemma toLower_colon: "CHR '':'' \<in> set h \<Longrightarrow> CHR '':'' \<in> set (toLower h)"
proof -
  assume "CHR '':'' \<in> set h"
  then have "lower_byte CHR '':'' \<in> set (toLower h)" by (simp add: toLower_def)
  then show ?thesis by (simp add: lower_byte_def)
qed

lemma toLower_literals:
  "toLower ''mailto:'' = ''mailto:''" "toLower ''javascript:'' = ''javascript:''"
  "toLower ''tel:'' = ''tel:''" "toLower ''data:'' = ''data:''" "toLower ''#'' = ''#''"
  by (simp_all add: toLower_def lower_byte_def)

lemma colonBeforeSlash_facts:
  assumes "colonBeforeSlash h"
  shows "CHR '':'' \<in> set h" and "\<not> prefix ''//'' h"
proof -
  from assms show "CHR '':'' \<in> set h"
    by (auto simp: colonBeforeSlash_def dest: set_takeWhileD)
  from assms show "\<not> prefix ''//'' h"
    by (auto simp: colonBeforeSlash_def prefix_def)
qed

lemma foreign_rejected:
  assumes "\<not> prefix ''//'' h" and "foreignScheme (toLower h)"
  shows "resolveURL L base \<lparr>Href = h, Text = t\<rparr> = []"
  using assms by (simp add: resolveURL_def Let_def split: option.splits)

text \<open>
  What is rejected before the reference is parsed. \<open>resolveURL\<close> returns the empty
  string (no candidate) for a reference that begins with \<open>mailto:\<close>, \<open>javascript:\<close>, \<open>tel:\<close> or \<open>data:\<close>, for a reference that
  begins with \<open>#\<close>, and for every other reference that has a colon and whose lower-cased
  form begins with neither \<open>http:\<close> nor \<open>https:\<close>, wherever the colon stands: before the
  first slash, or anywhere in a reference that does not begin with two slashes.
\<close>

lemma resolveURL_rejects:
  assumes "prefix ''mailto:'' h \<or> prefix ''javascript:'' h \<or> prefix ''tel:'' h \<or>
           prefix ''data:'' h \<or> prefix ''#'' h \<or>
           ((colonBeforeSlash h \<or> (CHR '':'' \<in> set h \<and> \<not> prefix ''//'' h)) \<and>
            \<not> prefix ''http:'' (toLower h) \<and> \<not> prefix ''https:'' (toLower h))"
  shows "resolveURL L base \<lparr>Href = h, Text = t\<rparr> = []"
proof (rule foreign_rejected)
  from assms show "\<not> prefix ''//'' h"
    by (auto simp: prefix_def dest: colonBeforeSlash_facts(2))
  from assms consider "prefix ''mailto:'' h" | "prefix ''javascript:'' h" | "prefix ''tel:'' h"
    | "prefix ''data:'' h" | "prefix ''#'' h"
    | "CHR '':'' \<in> set h" "\<not> prefix ''http:'' (toLower h)" "\<not> prefix ''https:'' (toLower h)"
    by (auto dest: colonBeforeSlash_facts(1))
  then show "foreignScheme (toLower h)"
  proof cases
    case 1
    from prefix_toLower [OF this] show ?thesis by (simp add: foreignScheme_def toLower_literals)
  next
    case 2
    from prefix_toLower [OF this] show ?thesis by (simp add: foreignScheme_def toLower_literals)
  next
    case 3
    from prefix_toLower [OF this] show ?thesis by (simp add: foreignScheme_def toLower_literals)
  next
    case 4
    from prefix_toLower [OF this] show ?thesis by (simp add: foreignScheme_def toLower_literals)
  next
    case 5
    from prefix_toLower [OF this] show ?thesis by (simp add: foreignScheme_def toLower_literals)
  next
    case 6
    with toLower_colon [of h] show ?thesis by (simp add: foreignScheme_def)
  qed
qed

lemma resolveURL_rejects_examples:
  "resolveURL (miniLib [] []) (Some exampleBase) (anchor ''mailto:x@y.com'') = [] \<and>
   resolveURL (miniLib [] []) (Some exampleBase) (anchor ''#top'') = [] \<and>
   resolveURL (miniLib [] []) (Some exampleBase) (anchor ''ftp://h/f'') = [] \<and>
   resolveURL (miniLib [] []) (Some exampleBase) (anchor ''/wiki/Talk:Go'') = [] \<and>
   colonBeforeSlash ''ftp://h/f'' \<and> \<not> colonBeforeSlash ''/wiki/Talk:Go''"
proof -
  have c: "colonBeforeSlash ''ftp://h/f''" "\<not> colonBeforeSlash ''/wiki/Talk:Go''"
    by (simp_all add: colonBeforeSlash_def)
  have l: "\<not> prefix ''http:'' (toLower ''ftp://h/f'')" "\<not> prefix ''https:'' (toLower ''ftp://h/f'')"
    "\<not> prefix ''http:'' (toLower ''/wiki/Talk:Go'')" "\<not> prefix ''https:'' (toLower ''/wiki/Talk:Go'')"
    by (simp_all add: toLower_def lower_byte_def)
  from c l
    resolveURL_rejects [of "''mailto:x@y.com''" "miniLib [] []" "Some exampleBase" "[]"]
    resolveURL_rejects [of "''#top''" "miniLib [] []" "Some exampleBase" "[]"]
    resolveURL_rejects [of "''ftp://h/f''" "miniLib [] []" "Some exampleBase" "[]"]
    resolveURL_rejects [of "''/wiki/Talk:Go''" "miniLib [] []" "Some exampleBase" "[]"]
  show ?thesis by (simp add: anchor_def)
qed

text \<open>
  A reference that is an \<open>http\<close> or \<open>https\<close> address passes the tests on its prefix and
  its colon and is resolved against the base.
\<close>

lemma web_scheme_not_foreign:
  "prefix ''http:'' x \<or> prefix ''https:'' x \<Longrightarrow> \<not> foreignScheme x"
  by (auto simp: foreignScheme_def prefix_def)

lemma resolveURL_web_address:
  assumes "prefix ''http:'' (toLower h) \<or> prefix ''https:'' (toLower h)"
  shows "resolveURL L (Some b) \<lparr>Href = h, Text = t\<rparr> = resolveParsed L b h"
proof -
  from assms have "h \<noteq> []" "\<not> prefix ''//'' h"
    by (auto simp: prefix_def toLower_def lower_byte_def)
  with web_scheme_not_foreign [OF assms] show ?thesis
    by (simp add: resolveURL_def Let_def)
qed

text \<open>
  C7. The references the claim lists as rejected are rejected, but so is a reference
  whose only colon comes after its first slash. With the base \<open>http://h/a/b\<close>, the
  reference \<open>/a:b\<close> has no colon before its first slash, and \<open>resolveURL\<close> returns the empty
  string for it, by the test \<^verbatim>\<open>strings.Contains(lowerHref, ":")\<close>. The steps that follow
  that test resolve \<open>/a:b\<close> to \<open>http://h/a:b\<close>; \<open>resolveURL\<close> returns that address for the
  same page written \<open>http://h/a:b\<close> or \<open>//h/a:b\<close>, and the first revision returned it for
  \<open>/a:b\<close>.
\<close>

theorem colon_in_path_rejected:
  "\<not> colonBeforeSlash ''/a:b'' \<and>
   miniParse ''http://h/a/b'' = Some exampleBase \<and>
   resolveURL (miniLib [] []) (Some exampleBase) (anchor ''/a:b'') = [] \<and>
   resolveParsed (miniLib [] []) exampleBase ''/a:b'' = ''http://h/a:b'' \<and>
   resolveURL (miniLib [] []) (Some exampleBase) (anchor ''http://h/a:b'') = ''http://h/a:b'' \<and>
   resolveURL (miniLib [] []) (Some exampleBase) (anchor ''//h/a:b'') = ''http://h/a:b'' \<and>
   resolveURL0 (miniLib [] []) (Some exampleBase) (anchor ''/a:b'') = ''http://h/a:b''"
  by code_simp

section \<open>Ignored extensions\<close>

lemma ignoredExt_letter_case: "ignoredExt styleCfg ''http://h/Logo.PNG''"
  by code_simp

text \<open>
  C8, as amended. In every state of a crawl an address in the output, and the address of
  every job, is the start address or has a path extension outside the table; and the
  crawl of a start page that links to \<open>style.css\<close> and to \<open>/about\<close>, with the depth 3,
  never lists the stylesheet and returns the start page and \<open>/about\<close>.
\<close>

theorem ignored_extensions_filtered:
  "(\<forall>s. reachable cfg s \<longrightarrow>
      (\<forall>u \<in> set (finalURLs s). u = startURL cfg \<or> \<not> ignoredExt cfg u) \<and>
      (\<forall>j \<in> allJobs cfg s. url j = startURL cfg \<or> \<not> ignoredExt cfg (url j))) \<and>
   getAndParseLinks (library styleCfg) ''http://h/'' = Inr [anchor ''style.css'', anchor ''/about''] \<and>
   resolveURL (library styleCfg) (getBaseURL (library styleCfg) ''http://h/'') (anchor ''style.css'') =
     ''http://h/style.css'' \<and>
   resolveURL (library styleCfg) (getBaseURL (library styleCfg) ''http://h/'') (anchor ''/about'') =
     ''http://h/about'' \<and>
   (\<forall>s. reachable styleCfg s \<longrightarrow> ''http://h/style.css'' \<notin> set (finalURLs s)) \<and>
   result styleCfg styleSchedule = Some ([''http://h/'', ''http://h/about''], None)"
proof (intro conjI allI impI)
  fix s assume "reachable cfg s"
  then show "\<forall>u \<in> set (finalURLs s). u = startURL cfg \<or> \<not> ignoredExt cfg u"
    and "\<forall>j \<in> allJobs cfg s. url j = startURL cfg \<or> \<not> ignoredExt cfg (url j)"
    by (rule outputs_filtered)+
next
  fix s assume "reachable styleCfg s"
  from outputs_filtered(1) [OF this] style_facts
  show "''http://h/style.css'' \<notin> set (finalURLs s)" by auto
qed (use style_facts style_result in simp_all)

theorem ignored_extensions_filtered_witness:
  "reachable styleCfg styleEnd \<and> finalURLs styleEnd = [''http://h/'', ''http://h/about''] \<and>
   ''http://h/style.css'' \<notin> set (finalURLs styleEnd) \<and>
   \<not> ignoredExt styleCfg ''http://h/about'' \<and> ignoredExt styleCfg ''http://h/style.css''"
proof -
  have r: "reachable styleCfg styleEnd"
    unfolding styleEnd_def by (rule stateAfter_reachable)
  with ignored_extensions_filtered [of styleCfg] styleEnd_facts style_facts show ?thesis by auto
qed

text \<open>
  C8 as stated fails for the start address: it is seeded without a look at its extension.
  Here the start page links to itself, so the address is also what a link resolves to;
  its extension is in the table, it is the seed job, and it is returned.
\<close>

theorem css_start_listed:
  "ignoredExt cssStartCfg ''http://h/a.css'' \<and>
   getAndParseLinks (library cssStartCfg) ''http://h/a.css'' = Inr [anchor ''a.css''] \<and>
   resolveURL (library cssStartCfg) (getBaseURL (library cssStartCfg) ''http://h/a.css'')
     (anchor ''a.css'') = ''http://h/a.css'' \<and>
   result cssStartCfg cssSchedule = Some ([''http://h/a.css''], None)"
  by code_simp

section \<open>Fetch failures\<close>

text \<open>
  C9. A worker has received the job of an address and the fetch fails: the request
  fails, or the status is outside 200..299, or the content type is not HTML. Then the
  address is in the output already; the step of the fetch leads to the call of
  \<^verbatim>\<open>tasks.Done()\<close> and changes neither the output, the visited set, the queue nor the
  counter; and in every state the crawl reaches from there the address is still in the
  output, the program has not panicked, whatever is returned contains the address and
  has a \<open>nil\<close> error, and the call of \<^verbatim>\<open>tasks.Done()\<close> for the job, once the worker
  stands before it, goes through and takes one from the counter.
\<close>

theorem fetch_failure_absorbed:
  assumes "reachable cfg s" and "i < length (workers s)" and "workers s ! i = WGot j"
    and "httpGet (library cfg) (url j) = None \<or>
         (\<exists>resp. httpGet (library cfg) (url j) = Some resp \<and>
            (StatusCode resp < 200 \<or> 300 \<le> StatusCode resp \<or>
             \<not> prefix ''text/html'' (toLower (ContentType resp))))"
  shows "url j \<in> set (finalURLs s) \<and>
         (\<exists>s1 err. exec cfg (Worker i) s = Some s1 \<and> workers s1 ! i = WDone j \<and>
            finalURLs s1 = finalURLs s \<and> visited s1 = visited s \<and> jobs s1 = jobs s \<and>
            tasks s1 = tasks s \<and>
            trace s1 = trace s @ [(Worker i, Fetch (url j) (FetchFailed err))]) \<and>
         (\<forall>s2. reaches cfg s s2 \<longrightarrow>
            url j \<in> set (finalURLs s2) \<and> \<not> crashed s2 \<and>
            (\<forall>r. returned s2 = Some r \<longrightarrow> url j \<in> set (fst r) \<and> snd r = None) \<and>
            (workers s2 ! i = WDone j \<longrightarrow>
               (\<exists>s3. exec cfg (Worker i) s2 = Some s3 \<and> tasks s3 = tasks s2 - 1 \<and>
                  workers s3 ! i = WIdle \<and> finalURLs s3 = finalURLs s2 \<and>
                  jobs s3 = jobs s2 \<and> visited s3 = visited s2)))"
proof (intro conjI allI impI)
  from assms(2,3) have "j \<in> allJobs cfg s"
    using current_in_allJobs [of i s j cfg] by simp
  with assms(1) show listed: "url j \<in> set (finalURLs s)" by (rule reachable_jobs_listed)
  from assms(1,2) have nw: "0 \<le> numWorkers cfg" by (simp add: reachable_length)
  from reachable_counted [OF assms(1) nw] have nc: "\<not> crashed s" by (simp add: counted_def)
  from fetch_fails [OF assms(4)] obtain err where
    err: "getAndParseLinks (library cfg) (url j) = Inl err" ..
  then have "fetchStep cfg j = (FetchFailed err, WDone j)" by (simp add: fetchStep_def)
  with nc assms(2,3)
  have "exec cfg (Worker i) s =
          Some ((setWorker i (WDone j) s)\<lparr>trace := trace s @ [(Worker i, Fetch (url j) (FetchFailed err))]\<rparr>)"
    by (simp add: exec_def threadStep_def)
  with assms(2)
  show "\<exists>s1 err. exec cfg (Worker i) s = Some s1 \<and> workers s1 ! i = WDone j \<and>
            finalURLs s1 = finalURLs s \<and> visited s1 = visited s \<and> jobs s1 = jobs s \<and>
            tasks s1 = tasks s \<and>
            trace s1 = trace s @ [(Worker i, Fetch (url j) (FetchFailed err))]"
    by auto
  fix s2 assume rs: "reaches cfg s s2"
  from reaches_reachable [OF assms(1) rs] have r2: "reachable cfg s2" .
  from reaches_output [OF rs] listed show l2: "url j \<in> set (finalURLs s2)" by blast
  from reachable_counted [OF r2 nw] show "\<not> crashed s2" by (simp add: counted_def)
  {
    fix r assume "returned s2 = Some r"
    with reachable_seeded [OF r2] have "r = (finalURLs s2, None)" by (simp add: seeded_def)
    with l2 show "url j \<in> set (fst r)" and "snd r = None" by simp_all
  }
  assume "workers s2 ! i = WDone j"
  moreover from reaches_length [OF rs] assms(2) have "i < length (workers s2)" by simp
  ultimately show "\<exists>s3. exec cfg (Worker i) s2 = Some s3 \<and> tasks s3 = tasks s2 - 1 \<and>
                  workers s3 ! i = WIdle \<and> finalURLs s3 = finalURLs s2 \<and>
                  jobs s3 = jobs s2 \<and> visited s3 = visited s2"
    using done_enabled [OF r2, of i j] by blast
qed

theorem fetch_failure_absorbed_witness:
  "reachable errorCfg errorMid \<and>
   workers errorMid ! 0 = WGot \<lparr>url = ''http://h/e'', depth = 1\<rparr> \<and>
   map_option StatusCode (httpGet (library errorCfg) ''http://h/e'') = Some 500 \<and>
   ''http://h/e'' \<in> set (finalURLs errorMid) \<and>
   (\<exists>s1. exec errorCfg (Worker 0) errorMid = Some s1 \<and>
      workers s1 ! 0 = WDone \<lparr>url = ''http://h/e'', depth = 1\<rparr> \<and>
      finalURLs s1 = finalURLs errorMid \<and> jobs s1 = jobs errorMid) \<and>
   reaches errorCfg errorMid errorEnd \<and> ''http://h/e'' \<in> set (finalURLs errorEnd) \<and>
   \<not> crashed errorEnd \<and>
   returned errorEnd = Some ([''http://h/'', ''http://h/e''], None)"
proof -
  have r: "reachable errorCfg errorMid"
    unfolding errorMid_def by (rule stateAfter_reachable)
  from errorMid_facts
  have f: "httpGet (library errorCfg) (url \<lparr>url = ''http://h/e'', depth = 1\<rparr>) = None \<or>
         (\<exists>resp. httpGet (library errorCfg) (url \<lparr>url = ''http://h/e'', depth = 1\<rparr>) = Some resp \<and>
            (StatusCode resp < 200 \<or> 300 \<le> StatusCode resp \<or>
             \<not> prefix ''text/html'' (toLower (ContentType resp))))"
    by auto
  from errorMid_facts have i: "0 < length (workers errorMid)"
    and at: "workers errorMid ! 0 = WGot \<lparr>url = ''http://h/e'', depth = 1\<rparr>"
    by simp_all
  have rs: "reaches errorCfg errorMid errorEnd"
    by (rule run_reaches [OF error_continues])
  from fetch_failure_absorbed [OF r i at f] rs r errorMid_facts errorEnd_facts at
  show ?thesis by auto
qed

section \<open>The start address\<close>

text \<open>
  C10. The crawl starts, before any goroutine has taken a step, with the start address as
  the only element of the output and of the visited set. In every state of a crawl, and
  so in whatever is returned, the output is not empty and begins with the start address,
  which is in the visited set.
\<close>

theorem start_first:
  assumes "reachable cfg s"
  shows "finalURLs (init cfg) = [startURL cfg] \<and> visited (init cfg) = {startURL cfg} \<and>
         trace (init cfg) = [] \<and>
         finalURLs s \<noteq> [] \<and> hd (finalURLs s) = startURL cfg \<and> startURL cfg \<in> visited s \<and>
         (\<forall>r. returned s = Some r \<longrightarrow> fst r \<noteq> [] \<and> hd (fst r) = startURL cfg)"
proof -
  from reachable_seeded [OF assms]
  have ne: "finalURLs s \<noteq> []" and hd: "hd (finalURLs s) = startURL cfg"
    and rt: "\<And>r. returned s = Some r \<Longrightarrow> r = (finalURLs s, None)"
    by (auto simp: seeded_def)
  from ne hd have "startURL cfg \<in> set (finalURLs s)" by (cases "finalURLs s") auto
  with reachable_output_visited [OF assms] have "startURL cfg \<in> visited s" by blast
  with ne hd rt show ?thesis by (auto simp: init_def)
qed

theorem start_first_witness:
  "reachable errorCfg errorEnd \<and>
   returned errorEnd = Some ([''http://h/'', ''http://h/e''], None) \<and>
   startURL errorCfg = ''http://h/'' \<and> hd (finalURLs errorEnd) = startURL errorCfg \<and>
   startURL errorCfg \<in> visited errorEnd"
proof -
  have r: "reachable errorCfg errorEnd"
    unfolding errorEnd_def by (rule stateAfter_reachable)
  have "startURL errorCfg = ''http://h/''" by (simp add: errorCfg_def)
  with start_first [OF r] errorEnd_facts r show ?thesis by simp
qed

end
